theory Spec2Isabelle
  imports Complex_Main "HOL-Library.Char_ord" "HOL-Library.Multiset" "HOL-Library.Sublist"
begin

section \<open>The plagiarism detector of PlagiarismControl\<close>

text \<open>
  A shallow embedding of the detection engine (classes \<open>CodeNormalizer\<close>,
  \<open>NotebookParser\<close> and \<open>PlagiarismDetector\<close>) and of the \<open>/api/analyze\<close> handler.

  JavaScript strings are modelled as \<^typ>\<open>string\<close>: a list of code units, restricted to
  the code units 0..255. JavaScript numbers are modelled as the rationals that the
  binary64 values denote, and every arithmetic operation rounds as binary64 arithmetic
  does (subsection \<open>JavaScript numbers\<close>).
\<close>

subsection \<open>Character classes of the regular expressions\<close>

text \<open>\<open>\w\<close> of a JavaScript regular expression: \<open>[A-Za-z0-9_]\<close>.\<close>

definition isDigit :: "char \<Rightarrow> bool" where
  "isDigit c = (CHR ''0'' \<le> c \<and> c \<le> CHR ''9'')"

definition isIdentStart :: "char \<Rightarrow> bool" where
  "isIdentStart c =
     ((CHR ''a'' \<le> c \<and> c \<le> CHR ''z'') \<or> (CHR ''A'' \<le> c \<and> c \<le> CHR ''Z'') \<or> c = CHR ''_'')"

definition isWordChar :: "char \<Rightarrow> bool" where
  "isWordChar c = (isIdentStart c \<or> isDigit c)"

text \<open>
  \<open>\s\<close>, and the characters \<open>String.prototype.trim\<close> removes: tab, line feed, vertical
  tab, form feed, carriage return, space and the no-break space (the further Unicode
  spaces lie outside the modelled code units).
\<close>

definition isSpace :: "char \<Rightarrow> bool" where
  "isSpace c = (c \<in> {CHR 0x09, CHR 0x0A, CHR 0x0B, CHR 0x0C, CHR 0x0D, CHR 0x20, CHR 0xA0})"

text \<open>The line terminators that \<open>.\<close> does not match and before which \<open>$\<close> (flag m) holds.\<close>

definition isLineTerminator :: "char \<Rightarrow> bool" where
  "isLineTerminator c = (c = CHR 0x0A \<or> c = CHR 0x0D)"

subsection \<open>String primitives\<close>

text \<open>\<open>s.split(c)\<close> for a one-character separator: \<open>''.split(c)\<close> is \<open>['']\<close>.\<close>

fun split :: "char \<Rightarrow> string \<Rightarrow> string list" where
  "split c [] = [[]]"
| "split c (x # xs) =
     (if x = c then [] # split c xs
      else (case split c xs of l # ls \<Rightarrow> (x # l) # ls | [] \<Rightarrow> [[x]]))"

text \<open>\<open>xs.join(sep)\<close>.\<close>

fun join :: "string \<Rightarrow> string list \<Rightarrow> string" where
  "join sep [] = []"
| "join sep [x] = x"
| "join sep (x # y # ys) = x @ sep @ join sep (y # ys)"

definition trim :: "string \<Rightarrow> string" where
  "trim s = rev (dropWhile isSpace (rev (dropWhile isSpace s)))"

text \<open>\<open>s.toLowerCase()\<close> on the modelled code units: A-Z, and the capital letters of
  Latin-1 (0xC0..0xDE without the multiplication sign 0xD7).\<close>

definition toLowerChar :: "char \<Rightarrow> char" where
  "toLowerChar c =
     (if (CHR ''A'' \<le> c \<and> c \<le> CHR ''Z'') \<or> (CHR 0xC0 \<le> c \<and> c \<le> CHR 0xDE \<and> c \<noteq> CHR 0xD7)
      then char_of (of_char c + (32::nat)) else c)"

definition toLowerCase :: "string \<Rightarrow> string" where
  "toLowerCase s = map toLowerChar s"

text \<open>
  The maximal runs of a string: \<open>runs s\<close> cuts \<open>s\<close> into its maximal blocks of word
  characters and of other characters, in order; \<open>concat (runs s) = s\<close>.
\<close>

fun runs :: "string \<Rightarrow> string list" where
  "runs [] = []"
| "runs (c # cs) =
     (case runs cs of
        [] \<Rightarrow> [[c]]
      | r # rs \<Rightarrow> (if isWordChar c = isWordChar (hd r) then (c # r) # rs else [c] # r # rs))"

definition isWord :: "string \<Rightarrow> bool" where
  "isWord r = (r \<noteq> [] \<and> isWordChar (hd r))"

subsection \<open>JavaScript numbers\<close>

text \<open>
  A JavaScript number is an IEEE 754 binary64 value. A finite one is modelled as the
  rational it denotes. \<open>toDouble x\<close> is the binary64 value nearest to \<open>x\<close>, a tie going to
  the value whose significand is even: with \<open>2 ^ e \<le> \<bar>x\<bar> < 2 ^ (e + 1)\<close> the candidates
  are the multiples of \<open>2 ^ (e - 52)\<close>, so the significand has 53 bits. An arithmetic
  operation of JavaScript is the exact operation followed by \<open>toDouble\<close>, and a decimal
  literal such as \<open>0.4\<close> denotes \<open>toDouble (4 / 10)\<close>. The range of the exponent is not
  bounded in the model: binary64 agrees with it on numbers of magnitude from \<open>2 ^ - 1022\<close>
  to below \<open>2 ^ 1024\<close>, and the numbers of the detector are 0 or quotients, products and
  sums of integers below \<open>2 ^ 53\<close> (lengths and counts) and the constants 0.3, 0.4, 10 and
  100. Integers are computed with exactly (binary64 does so below \<open>2 ^ 53\<close>).

  \<open>bitLength n\<close> is the number of binary digits of a positive integer, and \<open>exponent x\<close>
  the \<open>e\<close> above for a positive rational.
\<close>

function bitLength :: "int \<Rightarrow> int" where
  "bitLength n = (if n \<le> 0 then 0 else bitLength (n div 2) + 1)"
  by pat_completeness auto
termination by (relation "measure nat") auto

declare bitLength.simps [simp del]

definition exponent :: "rat \<Rightarrow> int" where
  "exponent x =
     (let (p, q) = quotient_of x;
          e = bitLength p - bitLength q
      in if 2 powi e \<le> x then e else e - 1)"

definition roundTiesToEven :: "rat \<Rightarrow> int" where
  "roundTiesToEven x =
     (let n = \<lfloor>x\<rfloor>;
          r = x - of_int n
      in if r < 1 / 2 then n else if 1 / 2 < r then n + 1 else if even n then n else n + 1)"

definition toDouble :: "rat \<Rightarrow> rat" where
  "toDouble x =
     (if x = 0 then 0
      else (let ulp = 2 powi (exponent \<bar>x\<bar> - 52)
            in sgn x * (of_int (roundTiesToEven (\<bar>x\<bar> / ulp)) * ulp)))"

text \<open>The operators \<open>+\<close>, \<open>-\<close>, \<open>*\<close> and \<open>/\<close> on numbers.\<close>

definition fadd :: "rat \<Rightarrow> rat \<Rightarrow> rat" where
  "fadd x y = toDouble (x + y)"

definition fsub :: "rat \<Rightarrow> rat \<Rightarrow> rat" where
  "fsub x y = toDouble (x - y)"

definition fmul :: "rat \<Rightarrow> rat \<Rightarrow> rat" where
  "fmul x y = toDouble (x * y)"

definition fdiv :: "rat \<Rightarrow> rat \<Rightarrow> rat" where
  "fdiv x y = toDouble (x / y)"

text \<open>\<open>Math.round(x)\<close>: the integer nearest to \<open>x\<close>, a tie going up; it is computed exactly.\<close>

definition Math_round :: "rat \<Rightarrow> rat" where
  "Math_round x = of_int \<lfloor>x + 1 / 2\<rfloor>"

subsection \<open>The libraries: string-similarity and natural\<close>

text \<open>
  Modelled from the spec: \<open>compareTwoStrings\<close> of the package string-similarity, which
  the repository requires and does not contain; the spec's character-overlap similarity
  (bigram/Dice-style overlap coefficient). The package (version 4) removes all whitespace from both
  strings, answers 1 for equal strings and 0 when one has fewer than two characters,
  counts the bigrams of the first string in a table, and for each bigram of the second
  string whose count is still positive decrements the count and increments the size
  of the intersection; the result is twice that size divided by the number of bigrams
  of both.
\<close>

definition bigrams :: "string \<Rightarrow> (char \<times> char) list" where
  "bigrams s = zip s (tl s)"

definition countBigram :: "(char \<times> char \<rightharpoonup> nat) \<Rightarrow> char \<times> char \<Rightarrow> (char \<times> char \<rightharpoonup> nat)" where
  "countBigram m b = m(b \<mapsto> (case m b of Some n \<Rightarrow> n + 1 | None \<Rightarrow> 1))"

fun intersectBigrams :: "(char \<times> char \<rightharpoonup> nat) \<Rightarrow> (char \<times> char) list \<Rightarrow> nat \<Rightarrow> nat" where
  "intersectBigrams m [] k = k"
| "intersectBigrams m (b # bs) k =
     (let n = (case m b of Some n \<Rightarrow> n | None \<Rightarrow> 0)
      in if n > 0 then intersectBigrams (m(b \<mapsto> n - 1)) bs (k + 1)
         else intersectBigrams m bs k)"

definition compareTwoStrings :: "string \<Rightarrow> string \<Rightarrow> rat" where
  "compareTwoStrings first second =
     (let a = filter (\<lambda>c. \<not> isSpace c) first;
          b = filter (\<lambda>c. \<not> isSpace c) second
      in if a = b then 1
         else if length a < 2 \<or> length b < 2 then 0
         else (let firstBigrams = foldl countBigram Map.empty (bigrams a);
                   intersectionSize = intersectBigrams firstBigrams (bigrams b) 0
               in fdiv (2 * of_nat intersectionSize) (of_nat (length a + length b - 2))))"

text \<open>
  Modelled from the spec: \<open>WordTokenizer.tokenize\<close> of the package natural, which the
  repository requires and does not contain; the spec's tokenization. The tokenizer
  splits at every run of characters outside \<open>[A-Za-z0-9_]\<close> (and outside the Cyrillic
  letters, which are not among the modelled code units) and discards empty tokens.
\<close>

definition tokenize :: "string \<Rightarrow> string list" where
  "tokenize s = filter isWord (runs s)"

subsection \<open>PlagiarismDetector.calculateSimilarity\<close>

text \<open>\<open>new Set(xs)\<close>, as the list of its elements in insertion order.\<close>

fun newSet :: "'a list \<Rightarrow> 'a list" where
  "newSet [] = []"
| "newSet (x # xs) = x # filter (\<lambda>y. y \<noteq> x) (newSet xs)"

definition jaccardSim :: "string \<Rightarrow> string \<Rightarrow> rat" where
  "jaccardSim code1 code2 =
     (let tokens1 = tokenize (toLowerCase code1);
          tokens2 = tokenize (toLowerCase code2);
          set1 = newSet tokens1;
          set2 = newSet tokens2;
          intersection = newSet (filter (\<lambda>x. x \<in> set set2) set1);
          union = newSet (set1 @ set2)
      in if length union > 0 then fdiv (of_nat (length intersection)) (of_nat (length union)) else 0)"

definition nonBlankLines :: "string \<Rightarrow> string list" where
  "nonBlankLines code = filter (\<lambda>line. trim line \<noteq> []) (split CHR 0x0A code)"

text \<open>
  The inner loop over the lines of the second text, for one line of the first: it
  increments the counter at the first similar line and leaves the loop.
\<close>

fun lines2Loop :: "string \<Rightarrow> string list \<Rightarrow> nat \<Rightarrow> nat" where
  "lines2Loop line1 [] matchingLines = matchingLines"
| "lines2Loop line1 (line2 # rest) matchingLines =
     (if compareTwoStrings line1 line2 > toDouble (8 / 10) then matchingLines + 1
      else lines2Loop line1 rest matchingLines)"

text \<open>The outer loop over the lines of the first text.\<close>

fun lines1Loop :: "string list \<Rightarrow> string list \<Rightarrow> nat \<Rightarrow> nat" where
  "lines1Loop [] lines2 matchingLines = matchingLines"
| "lines1Loop (line1 # rest) lines2 matchingLines =
     lines1Loop rest lines2 (lines2Loop line1 lines2 matchingLines)"

definition lineSim :: "string \<Rightarrow> string \<Rightarrow> rat" where
  "lineSim code1 code2 =
     (let lines1 = nonBlankLines code1;
          lines2 = nonBlankLines code2;
          totalLines = max (length lines1) (length lines2);
          matchingLines = (if totalLines > 0 then lines1Loop lines1 lines2 0 else 0)
      in if totalLines > 0 then fdiv (of_nat matchingLines) (of_nat totalLines) else 0)"

definition calculateSimilarity :: "string \<Rightarrow> string \<Rightarrow> rat" where
  "calculateSimilarity code1 code2 =
     (if code1 = [] \<or> code2 = [] then 0
      else (let stringSim = compareTwoStrings code1 code2;
                combinedSimilarity =
                  fadd (fadd (fmul stringSim (toDouble (4 / 10)))
                             (fmul (jaccardSim code1 code2) (toDouble (3 / 10))))
                       (fmul (lineSim code1 code2) (toDouble (3 / 10)))
            in min combinedSimilarity 1))"

subsection \<open>CodeNormalizer\<close>

text \<open>
  \<open>code.replace(/#.*$/gm, '')\<close>: every \<open>#\<close> is removed together with the rest of its
  line, up to and without the next line terminator. The flag tells whether the scan is
  inside such a comment.
\<close>

fun stripLineComments :: "bool \<Rightarrow> string \<Rightarrow> string" where
  "stripLineComments inComment [] = []"
| "stripLineComments inComment (c # cs) =
     (if isLineTerminator c then c # stripLineComments False cs
      else if inComment \<or> c = CHR ''#'' then stripLineComments True cs
      else c # stripLineComments False cs)"

text \<open>
  The two replacements of triple-quoted blocks, with the regular expression
  \<open>qqq[\s\S]*?qqq\<close> (flag g) for the quote character \<open>q\<close>: scanning from the left, a
  delimiter (three times \<open>q\<close>) that is followed by a later, non-overlapping delimiter is
  removed with everything up to the first such closing delimiter, and the scan goes on
  after it; an opening delimiter with no closing one stays. \<open>findTriple q s\<close> is what
  follows the first delimiter in \<open>s\<close>.
\<close>

fun findTriple :: "char \<Rightarrow> string \<Rightarrow> string option" where
  "findTriple q (a # b # c # rest) =
     (if a = q \<and> b = q \<and> c = q then Some rest else findTriple q (b # c # rest))"
| "findTriple q s = None"

function removeTriple :: "char \<Rightarrow> string \<Rightarrow> string" where
  "removeTriple q (a # b # c # rest) =
     (if a = q \<and> b = q \<and> c = q
      then (case findTriple q rest of
              Some r \<Rightarrow> removeTriple q r
            | None \<Rightarrow> a # removeTriple q (b # c # rest))
      else a # removeTriple q (b # c # rest))"
| "removeTriple q [] = []"
| "removeTriple q [a] = [a]"
| "removeTriple q [a, b] = [a, b]"
  by pat_completeness auto
termination
proof -
  have shorter: "findTriple q s = Some r \<Longrightarrow> length r < length s" for q s r
    by (induction q s rule: findTriple.induct) (auto split: if_splits)
  show ?thesis
    by (relation "measure (\<lambda>(q, s). length s)") (auto dest: shorter)
qed

definition removeComments :: "string \<Rightarrow> string" where
  "removeComments code =
     removeTriple (CHR 0x27) (removeTriple (CHR 0x22) (stripLineComments False code))"

definition normalizeWhitespace :: "string \<Rightarrow> string" where
  "normalizeWhitespace code =
     join [CHR 0x0A] (filter (\<lambda>stripped. stripped \<noteq> []) (map trim (split (CHR 0x0A) code)))"

definition keywords_set :: "string list" where
  "keywords_set =
     [''def'', ''class'', ''import'', ''from'', ''if'', ''else'', ''elif'', ''for'', ''while'',
      ''return'', ''try'', ''except'', ''finally'', ''with'', ''as'', ''break'', ''continue'',
      ''pass'', ''raise'', ''assert'', ''yield'', ''lambda'', ''True'', ''False'', ''None'',
      ''and'', ''or'', ''not'', ''in'', ''is'', ''print'', ''range'', ''len'', ''str'', ''int'',
      ''float'', ''list'', ''dict'', ''set'', ''tuple'', ''open'', ''file'']"

text \<open>
  \<open>code.match(/\b[a-zA-Z_][a-zA-Z0-9_]*\b/g)\<close>: a match starts at a word boundary with a
  letter or underscore and, ending at a word boundary, is the whole maximal run of word
  characters there; a run that starts with a digit holds no match.
\<close>

definition isIdentifier :: "string \<Rightarrow> bool" where
  "isIdentifier r = (r \<noteq> [] \<and> isIdentStart (hd r))"

definition identifiers :: "string \<Rightarrow> string list" where
  "identifiers code = filter isIdentifier (runs code)"

text \<open>The decimal numeral of \<open>varCounter\<close> in the template \<open>var${varCounter}\<close>.\<close>

fun showNat :: "nat \<Rightarrow> string" where
  "showNat n =
     (if n < 10 then [char_of (48 + n)] else showNat (n div 10) @ [char_of (48 + n mod 10)])"

declare showNat.simps [simp del]

text \<open>
  The first loop: \<open>varMapping\<close> is a \<open>Map\<close>, iterated below in insertion order, so it is
  an association list in that order.
\<close>

fun buildMapping :: "string list \<Rightarrow> (string \<times> string) list \<Rightarrow> nat \<Rightarrow> (string \<times> string) list" where
  "buildMapping [] varMapping varCounter = varMapping"
| "buildMapping (token # tokens) varMapping varCounter =
     (if token \<notin> set keywords_set \<and> map_of varMapping token = None
      then buildMapping tokens (varMapping @ [(token, ''var'' @ showNat varCounter)]) (varCounter + 1)
      else buildMapping tokens varMapping varCounter)"

text \<open>
  \<open>code.replace(new RegExp('\\b' + original + '\\b', 'g'), normalized)\<close>, for an
  \<open>original\<close> made of word characters: an occurrence between two word boundaries is a
  whole maximal run of word characters, so the runs equal to \<open>original\<close> are the ones
  replaced.
\<close>

definition replaceWord :: "string \<Rightarrow> string \<Rightarrow> string \<Rightarrow> string" where
  "replaceWord original normalized code =
     concat (map (\<lambda>r. if r = original then normalized else r) (runs code))"

definition normalizeVariableNames :: "string \<Rightarrow> string" where
  "normalizeVariableNames code =
     (let tokens = identifiers code;
          varMapping = buildMapping tokens [] 0
      in foldl (\<lambda>normalizedCode (original, normalized). replaceWord original normalized normalizedCode)
           code varMapping)"

definition normalizeCode :: "string \<Rightarrow> bool \<Rightarrow> string" where
  "normalizeCode code normalizeVars =
     (let code1 = removeComments code;
          code2 = normalizeWhitespace code1
      in if normalizeVars then normalizeVariableNames code2 else code2)"

subsection \<open>NotebookParser\<close>

text \<open>
  A parsed notebook: \<open>cells\<close> may be absent; the \<open>source\<close> of a cell is an array of
  strings, a string, or absent. The file system is a function from paths to notebooks,
  \<open>None\<close> where reading or parsing the file throws.
\<close>

datatype cell_source = SourceArray "string list" | SourceString string

record cell =
  cell_type :: string
  source :: "cell_source option"

record notebook =
  cells :: "cell list option"

definition cellCode :: "cell \<Rightarrow> string list" where
  "cellCode c =
     (if cell_type c = ''code'' then
        (case source c of
           Some (SourceArray ls) \<Rightarrow> [concat ls]
         | Some (SourceString s) \<Rightarrow> (if s \<noteq> [] then [s] else [])
         | None \<Rightarrow> [])
      else [])"

definition extractCodeFromNotebook :: "(string \<Rightarrow> notebook option) \<Rightarrow> string \<Rightarrow> string" where
  "extractCodeFromNotebook fs filePath =
     (case fs filePath of
        None \<Rightarrow> []
      | Some nb \<Rightarrow>
          (let codeCells = (case cells nb of Some cs \<Rightarrow> concat (map cellCode cs) | None \<Rightarrow> [])
           in join [CHR 0x0A, CHR 0x0A] codeCells))"

subsection \<open>PlagiarismDetector.findMatchingLines\<close>

record line_match =
  lineA :: nat
  lineB :: nat
  code :: string
  line_similarity :: rat

text \<open>The lookup table \<open>line2Set\<close>: each line of the second text with its indices, in order.\<close>

definition indexLines :: "string list \<Rightarrow> (string \<rightharpoonup> nat list)" where
  "indexLines lines2 =
     foldl (\<lambda>line2Set (line, index).
              line2Set(line \<mapsto> (case line2Set line of Some indices \<Rightarrow> indices | None \<Rightarrow> []) @ [index]))
       Map.empty (zip lines2 [0..<length lines2])"

text \<open>The inner loop over \<open>lines2\<close> from index \<open>j\<close>: the first similar line, if any.\<close>

fun findSimilar :: "string \<Rightarrow> string list \<Rightarrow> nat \<Rightarrow> (nat \<times> rat) option" where
  "findSimilar line1 [] j = None"
| "findSimilar line1 (line2 # rest) j =
     (if length line2 > 10 \<and> compareTwoStrings line1 line2 > toDouble (85 / 100)
      then Some (j, compareTwoStrings line1 line2)
      else findSimilar line1 rest (j + 1))"

text \<open>The outer loop, at index \<open>i\<close> with the lines of the first text from \<open>i\<close> on.\<close>

fun matchLoop ::
  "(string \<rightharpoonup> nat list) \<Rightarrow> string list \<Rightarrow> nat \<Rightarrow> nat \<Rightarrow> string list \<Rightarrow> line_match list \<Rightarrow> line_match list"
where
  "matchLoop line2Set lines2 maxMatches i [] matches = matches"
| "matchLoop line2Set lines2 maxMatches i (line1 # rest) matches =
     (if length matches < maxMatches then
        (case line2Set line1 of
           Some indices \<Rightarrow>
             matchLoop line2Set lines2 maxMatches (i + 1) rest
               (matches @ [\<lparr>lineA = i + 1, lineB = hd indices + 1, code = line1, line_similarity = 100\<rparr>])
         | None \<Rightarrow>
             (if length line1 > 10 \<and> length matches < maxMatches then
                (case findSimilar line1 lines2 0 of
                   Some (j, similarity) \<Rightarrow>
                     matchLoop line2Set lines2 maxMatches (i + 1) rest
                       (matches @ [\<lparr>lineA = i + 1, lineB = j + 1, code = line1,
                                    line_similarity = fdiv (Math_round (fmul (fmul similarity 100) 10)) 10\<rparr>])
                 | None \<Rightarrow> matchLoop line2Set lines2 maxMatches (i + 1) rest matches)
              else matchLoop line2Set lines2 maxMatches (i + 1) rest matches))
      else matches)"

definition trimmedLines :: "string \<Rightarrow> string list" where
  "trimmedLines text = filter (\<lambda>line. line \<noteq> []) (map trim (split (CHR 0x0A) text))"

definition findMatchingLines :: "string \<Rightarrow> string \<Rightarrow> nat \<Rightarrow> line_match list" where
  "findMatchingLines code1 code2 maxMatches =
     (let lines1 = trimmedLines code1;
          lines2 = trimmedLines code2
      in matchLoop (indexLines lines2) lines2 maxMatches 0 lines1 [])"

subsection \<open>PlagiarismDetector.detectPlagiarism\<close>

record detector =
  threshold :: rat
  normalizeVars :: bool

record file_data =
  file_id :: string
  student_name :: string
  student_id :: string
  file_path :: string
  upload_order :: "nat option"

record 'h processed_file =
  p_student_name :: string
  p_student_id :: string
  p_file_id :: string
  raw_code :: string
  normalized_code :: string
  p_upload_order :: nat
  code_hash :: 'h

record result =
  studentA :: string
  studentA_id :: string
  fileA_id :: string
  studentB :: string
  studentB_id :: string
  fileB_id :: string
  similarity :: rat
  matching_lines :: "line_match list"
  total_matches :: nat

text \<open>
  Step 1, for one file. \<open>calculateCodeHash\<close> is the MD5 digest of the crypto module; it
  is the parameter \<open>md5\<close>, an arbitrary function of the normalized code.
\<close>

definition processFile ::
  "(string \<Rightarrow> 'h) \<Rightarrow> (string \<Rightarrow> notebook option) \<Rightarrow> detector \<Rightarrow> file_data \<Rightarrow> 'h processed_file list"
where
  "processFile md5 fs det fileData =
     (let rawCode = extractCodeFromNotebook fs (file_path fileData);
          normalizedCode = normalizeCode rawCode (normalizeVars det)
      in if trim normalizedCode = [] then []
         else [\<lparr>p_student_name = student_name fileData,
                 p_student_id = student_id fileData,
                 p_file_id = file_id fileData,
                 raw_code = rawCode,
                 normalized_code = normalizedCode,
                 p_upload_order = (case upload_order fileData of Some n \<Rightarrow> n | None \<Rightarrow> 0),
                 code_hash = md5 normalizedCode\<rparr>])"

text \<open>Step 2, for one pair: the score, and the result pushed when it reaches the threshold.\<close>

definition pairSimilarity :: "'h processed_file \<Rightarrow> 'h processed_file \<Rightarrow> rat" where
  "pairSimilarity fileA fileB =
     (if code_hash fileA = code_hash fileB then 1
      else calculateSimilarity (normalized_code fileA) (normalized_code fileB))"

definition pairResult :: "'h processed_file \<Rightarrow> 'h processed_file \<Rightarrow> result" where
  "pairResult fileA fileB =
     (let similarity = pairSimilarity fileA fileB;
          matchingLines =
            (if similarity > toDouble (7 / 10)
             then findMatchingLines (normalized_code fileA) (normalized_code fileB) 20
             else [])
      in \<lparr>studentA = p_student_name fileA,
          studentA_id = p_student_id fileA,
          fileA_id = p_file_id fileA,
          studentB = p_student_name fileB,
          studentB_id = p_student_id fileB,
          fileB_id = p_file_id fileB,
          similarity = fdiv (Math_round (fmul (fmul similarity 100) 100)) 100,
          matching_lines = matchingLines,
          total_matches = length matchingLines\<rparr>)"

definition comparePair :: "detector \<Rightarrow> 'h processed_file \<Rightarrow> 'h processed_file \<Rightarrow> result list" where
  "comparePair det fileA fileB =
     (if pairSimilarity fileA fileB \<ge> threshold det then [pairResult fileA fileB] else [])"

definition compareAll :: "detector \<Rightarrow> 'h processed_file list \<Rightarrow> result list" where
  "compareAll det processedFiles =
     concat (map (\<lambda>i. concat (map (\<lambda>j. comparePair det (processedFiles ! i) (processedFiles ! j))
                                  [i + 1 ..< length processedFiles]))
               [0 ..< length processedFiles])"

text \<open>
  \<open>results.sort(compareFn)\<close>: the sort of an array is stable (ECMAScript 2019, and
  every Node.js from version 11 on; the repository asks for Node.js 16 or later), so it
  is modelled as an insertion sort that puts an element before the first later one that
  the comparison does not put in front of it.
\<close>

fun insertBy :: "('a \<Rightarrow> 'a \<Rightarrow> rat) \<Rightarrow> 'a \<Rightarrow> 'a list \<Rightarrow> 'a list" where
  "insertBy compareFn x [] = [x]"
| "insertBy compareFn x (y # ys) =
     (if compareFn x y \<le> 0 then x # y # ys else y # insertBy compareFn x ys)"

definition arraySort :: "('a \<Rightarrow> 'a \<Rightarrow> rat) \<Rightarrow> 'a list \<Rightarrow> 'a list" where
  "arraySort compareFn xs = foldr (insertBy compareFn) xs []"

definition detectPlagiarism ::
  "(string \<Rightarrow> 'h) \<Rightarrow> (string \<Rightarrow> notebook option) \<Rightarrow> detector \<Rightarrow> file_data list \<Rightarrow> result list"
where
  "detectPlagiarism md5 fs det filesData =
     (if length filesData < 2 then []
      else (let processedFiles = concat (map (processFile md5 fs det) filesData)
            in if length processedFiles < 2 then []
               else arraySort (\<lambda>a b. fsub (similarity b) (similarity a)) (compareAll det processedFiles)))"

subsection \<open>The handler of POST /api/analyze\<close>

text \<open>
  The database holds the collections \<open>files\<close> and \<open>analysis_results\<close>. The handler is
  modelled after the authentication middleware has let the request through, for a body
  whose \<open>threshold\<close> is a number or absent; the fresh identifier and the clock are
  arguments. A failure of the database itself (answered with status 500) is not modelled.
\<close>

record file_doc =
  doc_id :: string
  doc_student_name :: string
  doc_student_id :: string
  doc_file_path :: string
  doc_upload_order :: "nat option"

record analysis_result =
  run_id :: string
  analysis_timestamp :: string
  run_threshold :: rat
  results :: "result list"
  total_files :: nat
  run_total_matches :: nat

record database =
  files :: "file_doc list"
  analysis_results :: "analysis_result list"

datatype response = Json analysis_result | Status nat string

definition toFileData :: "file_doc \<Rightarrow> file_data" where
  "toFileData f =
     \<lparr>file_id = doc_id f,
      student_name = doc_student_name f,
      student_id = doc_student_id f,
      file_path = doc_file_path f,
      upload_order = doc_upload_order f\<rparr>"

definition analyze ::
  "(string \<Rightarrow> 'h) \<Rightarrow> (string \<Rightarrow> notebook option) \<Rightarrow> string \<Rightarrow> string \<Rightarrow> rat option \<Rightarrow> database
     \<Rightarrow> response \<times> database"
where
  "analyze md5 fs uuid now body_threshold db =
     (let thr = (case body_threshold of Some t \<Rightarrow> t | None \<Rightarrow> 5 / 10);
          found = take 300 (files db)
      in if length found < 2
         then (Status 400 ''At least 2 files are required for analysis'', db)
         else (let filesToAnalyze = take 100 found;
                   filesData = map toFileData filesToAnalyze;
                   res = detectPlagiarism md5 fs \<lparr>threshold = thr, normalizeVars = True\<rparr> filesData;
                   analysisResult = \<lparr>run_id = uuid,
                                      analysis_timestamp = now,
                                      run_threshold = thr,
                                      results = res,
                                      total_files = length filesToAnalyze,
                                      run_total_matches = length res\<rparr>
               in (Json analysisResult,
                   db\<lparr>analysis_results := analysis_results db @ [analysisResult]\<rparr>)))"

subsection \<open>Notions used in the statements\<close>

text \<open>The index pairs of the double loop, in the order the loop visits them.\<close>

definition indexPairs :: "nat \<Rightarrow> (nat \<times> nat) list" where
  "indexPairs n = concat (map (\<lambda>i. map (Pair i) [i + 1 ..< n]) [0 ..< n])"

definition keptPairs :: "detector \<Rightarrow> 'h processed_file list \<Rightarrow> (nat \<times> nat) list" where
  "keptPairs det ps =
     filter (\<lambda>(i, j). threshold det \<le> pairSimilarity (ps ! i) (ps ! j)) (indexPairs (length ps))"

text \<open>The array \<open>processedFiles\<close> after step 1.\<close>

definition processAll ::
  "(string \<Rightarrow> 'h) \<Rightarrow> (string \<Rightarrow> notebook option) \<Rightarrow> detector \<Rightarrow> file_data list \<Rightarrow> 'h processed_file list"
where
  "processAll md5 fs det filesData = concat (map (processFile md5 fs det) filesData)"

text \<open>The array \<open>results\<close> as the double loop leaves it, before it is sorted.\<close>

definition discovered ::
  "(string \<Rightarrow> 'h) \<Rightarrow> (string \<Rightarrow> notebook option) \<Rightarrow> detector \<Rightarrow> file_data list \<Rightarrow> result list"
where
  "discovered md5 fs det filesData =
     (if length filesData < 2 \<or> length (processAll md5 fs det filesData) < 2 then []
      else compareAll det (processAll md5 fs det filesData))"

text \<open>
  The combined score in the words of the specification, computed with the numbers of
  JavaScript. The token sets and their Jaccard index: the size of the intersection over
  the size of the union, 0 if the union is empty.
\<close>

definition spec_tokenSet :: "string \<Rightarrow> string set" where
  "spec_tokenSet text = set (tokenize (toLowerCase text))"

definition spec_tokenJaccard :: "string \<Rightarrow> string \<Rightarrow> rat" where
  "spec_tokenJaccard a b =
     (if spec_tokenSet a \<union> spec_tokenSet b = {} then 0
      else fdiv (of_nat (card (spec_tokenSet a \<inter> spec_tokenSet b)))
                (of_nat (card (spec_tokenSet a \<union> spec_tokenSet b))))"

text \<open>
  The line coverage: a line is blank when it consists of white space only; a line of A
  is matched when at least one line of B exceeds 0.8 character-overlap similarity with
  it; the coverage is the number of matched non-blank lines of A over the larger of the
  numbers of non-blank lines of A and of B (0 when neither has a non-blank line).
\<close>

definition spec_nonBlankLines :: "string \<Rightarrow> string list" where
  "spec_nonBlankLines text = filter (\<lambda>line. \<exists>c \<in> set line. \<not> isSpace c) (split (CHR 0x0A) text)"

definition spec_matched :: "string list \<Rightarrow> string \<Rightarrow> bool" where
  "spec_matched linesB line = (\<exists>other \<in> set linesB. toDouble (8 / 10) < compareTwoStrings line other)"

definition spec_lineCoverage :: "string \<Rightarrow> string \<Rightarrow> rat" where
  "spec_lineCoverage a b =
     (let linesA = spec_nonBlankLines a;
          linesB = spec_nonBlankLines b
      in if linesA = [] \<and> linesB = [] then 0
         else fdiv (of_nat (length (filter (spec_matched linesB) linesA)))
                   (of_nat (max (length linesA) (length linesB))))"

text \<open>
  A number as a percentage, and a number rounded to two decimals; the weighted blend,
  clamped to the unit interval and reported as a percentage rounded to two decimals.
\<close>

definition spec_percentage :: "rat \<Rightarrow> rat" where
  "spec_percentage x = fmul x 100"

definition spec_roundTwoDecimals :: "rat \<Rightarrow> rat" where
  "spec_roundTwoDecimals x = fdiv (Math_round (fmul x 100)) 100"

definition spec_combinedScore :: "string \<Rightarrow> string \<Rightarrow> rat" where
  "spec_combinedScore a b =
     (let blend = fadd (fadd (fmul (toDouble (4 / 10)) (compareTwoStrings a b))
                             (fmul (toDouble (3 / 10)) (spec_tokenJaccard a b)))
                       (fmul (toDouble (3 / 10)) (spec_lineCoverage a b));
          clamped = max 0 (min 1 blend)
      in spec_roundTwoDecimals (spec_percentage clamped))"

text \<open>
  The same blend computed on the three signals without any rounding, clamped, as a
  percentage: the number that the reported one approximates.
\<close>

definition spec_exactScore :: "string \<Rightarrow> string \<Rightarrow> rat" where
  "spec_exactScore a b =
     100 * max 0 (min 1 (4 / 10 * compareTwoStrings a b + 3 / 10 * spec_tokenJaccard a b
                           + 3 / 10 * spec_lineCoverage a b))"

text \<open>The count a bigram table holds for a bigram: 0 for a bigram that is not a key.\<close>

definition tableCount :: "('k \<rightharpoonup> nat) \<Rightarrow> 'k \<Rightarrow> nat" where
  "tableCount m b = (case m b of Some n \<Rightarrow> n | None \<Rightarrow> 0)"

text \<open>
  What the handler reads from a request and from the database: the threshold with its
  default, the descriptors of the files it analyses, and how many of them are usable,
  that is, have non-empty normalized code.
\<close>

definition requestThreshold :: "rat option \<Rightarrow> rat" where
  "requestThreshold body_threshold = (case body_threshold of Some t \<Rightarrow> t | None \<Rightarrow> 5 / 10)"

definition requestFiles :: "database \<Rightarrow> file_data list" where
  "requestFiles db = map toFileData (take 100 (take 300 (files db)))"

definition usable :: "(string \<Rightarrow> 'h) \<Rightarrow> (string \<Rightarrow> notebook option) \<Rightarrow> database \<Rightarrow> nat" where
  "usable md5 fs db = length (processAll md5 fs \<lparr>threshold = 0, normalizeVars = True\<rparr> (requestFiles db))"

subsection \<open>Notions used in the analysis of the normalizer\<close>

text \<open>
  A run of kind \<open>True\<close> is a non-empty block of word characters, a run of kind \<open>False\<close>
  a non-empty block of other characters; \<open>runs\<close> yields runs of alternating kinds. A
  function on runs is preserving when it maps word runs to word runs and leaves the
  other runs as they are; \<open>msub\<close> applies a function to every run of a string.
\<close>

definition kindRun :: "bool \<Rightarrow> string \<Rightarrow> bool" where
  "kindRun k r = (r \<noteq> [] \<and> list_all (\<lambda>c. isWordChar c = k) r)"

fun altRuns :: "bool \<Rightarrow> string list \<Rightarrow> bool" where
  "altRuns k [] = True"
| "altRuns k (r # rs) = (kindRun k r \<and> altRuns (\<not> k) rs)"

definition preserving :: "(string \<Rightarrow> string) \<Rightarrow> bool" where
  "preserving \<rho> = ((\<forall>r. kindRun True r \<longrightarrow> kindRun True (\<rho> r)) \<and> (\<forall>r. kindRun False r \<longrightarrow> \<rho> r = r))"

definition msub :: "(string \<Rightarrow> string) \<Rightarrow> string \<Rightarrow> string" where
  "msub \<rho> s = concat (map \<rho> (runs s))"

text \<open>A line as \<open>normalizeWhitespace\<close> leaves it: not empty, trimmed, without line feed.\<close>

definition goodLine :: "string \<Rightarrow> bool" where
  "goodLine l = (l \<noteq> [] \<and> CHR 0x0A \<notin> set l \<and> \<not> isSpace (hd l) \<and> \<not> isSpace (last l))"

text \<open>
  The generated names: \<open>varName k\<close> is the name the normalizer gives to the identifier
  with counter \<open>k\<close>; \<open>isVarName\<close> recognises \<open>var\<close> followed by one or more digits;
  \<open>readNat\<close> reads a decimal numeral.
\<close>

definition varName :: "nat \<Rightarrow> string" where
  "varName k = ''var'' @ showNat k"

definition isVarName :: "string \<Rightarrow> bool" where
  "isVarName t = (take 3 t = ''var'' \<and> drop 3 t \<noteq> [] \<and> list_all isDigit (drop 3 t))"

definition readNat :: "string \<Rightarrow> nat" where
  "readNat s = foldl (\<lambda>a c. 10 * a + (of_char c - 48)) 0 s"

text \<open>
  A mapping applied to a run at once; the mapping that maps the first \<open>n\<close> generated
  names to themselves; and the invariant of the loop that builds \<open>varMapping\<close>.
\<close>

definition lookup :: "(string \<times> string) list \<Rightarrow> string \<Rightarrow> string" where
  "lookup m r = (case map_of m r of Some v \<Rightarrow> v | None \<Rightarrow> r)"

definition idMapping :: "nat \<Rightarrow> (string \<times> string) list" where
  "idMapping n = map (\<lambda>i. (varName i, varName i)) [0..<n]"

definition mapInv :: "(string \<times> string) list \<Rightarrow> nat \<Rightarrow> bool" where
  "mapInv acc n =
     (map snd acc = map varName [0..<n] \<and> distinct (map fst acc)
      \<and> list_all (\<lambda>t. t \<notin> set keywords_set) (map fst acc))"

subsection \<open>Example inputs\<close>

definition exampleA :: string where
  "exampleA = ''# note\<newline>x=1\<newline>print(x)''"

definition exampleB :: string where
  "exampleB = ''y=1\<newline>print(y)''"

definition exampleC :: string where
  "exampleC = ''total = 0\<newline>for k in range(10):\<newline>    total = total + k''"

definition codeNotebook :: "string \<Rightarrow> notebook" where
  "codeNotebook text =
     \<lparr>cells = Some [\<lparr>cell_type = ''markdown'', source = Some (SourceString ''notes'')\<rparr>,
                    \<lparr>cell_type = ''code'', source = Some (SourceString text)\<rparr>]\<rparr>"

definition exampleFs :: "string \<Rightarrow> notebook option" where
  "exampleFs path =
     (if path = ''a.ipynb'' then Some (codeNotebook exampleA)
      else if path = ''b.ipynb'' then Some (codeNotebook exampleB)
      else if path = ''c.ipynb'' then Some (codeNotebook exampleC)
      else None)"

definition exampleFile :: "string \<Rightarrow> file_data" where
  "exampleFile name =
     \<lparr>file_id = name, student_name = name, student_id = name,
      file_path = name @ ''.ipynb'', upload_order = None\<rparr>"

definition exampleDetector :: detector where
  "exampleDetector = \<lparr>threshold = 5 / 10, normalizeVars = True\<rparr>"

definition fiftyLines :: string where
  "fiftyLines = join [CHR 0x0A] (replicate 50 ''x = x + 1'')"

definition exampleDoc :: "string \<Rightarrow> file_doc" where
  "exampleDoc name =
     \<lparr>doc_id = name, doc_student_name = name, doc_student_id = name,
      doc_file_path = name @ ''.ipynb'', doc_upload_order = Some 1\<rparr>"

text \<open>A block in triple double quotes, a string literal, a line comment and a blank line.\<close>

definition exampleD :: string where
  "exampleD =
     [CHR 0x22, CHR 0x22, CHR 0x22] @ ''greets bob'' @ [CHR 0x22, CHR 0x22, CHR 0x22]
     @ ''\<newline>name = '' @ [CHR 0x22] @ ''bob'' @ [CHR 0x22] @ ''   # greet\<newline>\<newline>  print(name)''"

text \<open>Two double quotes, a block in triple single quotes, a double quote, and a closing
  delimiter of three double quotes.\<close>

definition exampleQuotes :: string where
  "exampleQuotes =
     [CHR 0x22, CHR 0x22, CHR 0x27, CHR 0x27, CHR 0x27, CHR ''a'', CHR 0x27, CHR 0x27, CHR 0x27,
      CHR 0x22, CHR '' '', CHR ''b'', CHR '' '', CHR 0x22, CHR 0x22, CHR 0x22]"

section \<open>Properties\<close>

subsection \<open>The numbers\<close>

text \<open>
  \<open>exponent\<close> finds the binade of a positive number; rounding keeps the sign of a number
  and changes it by at most the fraction \<open>2 ^ - 53\<close> of its magnitude.
\<close>

lemma bitLength_nonneg: "0 \<le> bitLength n"
  by (induction n rule: bitLength.induct) (simp add: bitLength.simps)

lemma bitLength_bounds:
  "0 < n \<Longrightarrow> 2 ^ nat (bitLength n - 1) \<le> n \<and> n < 2 ^ nat (bitLength n)"
proof (induction n rule: bitLength.induct)
  case (1 n)
  show ?case
  proof (cases "n div 2 = 0")
    case True
    with 1 have "n = 1" by presburger
    then show ?thesis by (simp add: bitLength.simps [of 1] bitLength.simps [of 0])
  next
    case False
    with 1 have pos: "0 < n div 2" by presburger
    with 1 have ih: "2 ^ nat (bitLength (n div 2) - 1) \<le> n div 2" "n div 2 < 2 ^ nat (bitLength (n div 2))"
      by simp_all
    have bl: "bitLength n = bitLength (n div 2) + 1"
      using 1 by (simp add: bitLength.simps [of n])
    have ge: "1 \<le> bitLength (n div 2)"
      using pos bitLength_nonneg [of "n div 2 div 2"] by (simp add: bitLength.simps [of "n div 2"])
    then have n1: "nat (bitLength n - 1) = Suc (nat (bitLength (n div 2) - 1))"
      and n2: "nat (bitLength n) = Suc (nat (bitLength (n div 2)))"
      by (simp_all add: bl nat_add_distrib)
    from ih have "2 * 2 ^ nat (bitLength (n div 2) - 1) \<le> n" "n < 2 * 2 ^ nat (bitLength (n div 2))"
      by linarith+
    then show ?thesis
      by (simp add: n1 n2)
  qed
qed

lemma exponent_bounds:
  assumes "0 < x"
  shows "2 powi exponent x \<le> x \<and> x < 2 powi (exponent x + 1)"
proof -
  obtain p q where pq: "quotient_of x = (p, q)"
    by (cases "quotient_of x")
  then have q: "0 < q" and x: "x = of_int p / of_int q"
    using quotient_of_denom_pos [of x p q] quotient_of_div [of x p q] by simp_all
  with assms have p: "0 < p"
    by (simp add: zero_less_divide_iff)
  define e where "e = bitLength p - bitLength q"
  have bp: "(2::rat) ^ nat (bitLength p - 1) \<le> of_int p" "of_int p < (2::rat) ^ nat (bitLength p)"
    using bitLength_bounds [OF p] by (metis of_int_le_iff of_int_numeral of_int_power, metis of_int_less_iff of_int_numeral of_int_power)
  have bq: "(2::rat) ^ nat (bitLength q - 1) \<le> of_int q" "of_int q < (2::rat) ^ nat (bitLength q)"
    using bitLength_bounds [OF q] by (metis of_int_le_iff of_int_numeral of_int_power, metis of_int_less_iff of_int_numeral of_int_power)
  have p1: "1 \<le> bitLength p" and q1: "1 \<le> bitLength q"
    using p q bitLength_nonneg [of "p div 2"] bitLength_nonneg [of "q div 2"]
    by (simp_all add: bitLength.simps [of p] bitLength.simps [of q])
  have P: "(2::rat) powi (bitLength p - 1) \<le> of_int p" "of_int p < (2::rat) powi bitLength p"
    using bp p1 by (simp_all add: power_int_def)
  have Q: "(2::rat) powi (bitLength q - 1) \<le> of_int q" "of_int q < (2::rat) powi bitLength q"
    using bq q1 by (simp_all add: power_int_def)
  have lower: "(2::rat) powi (e - 1) < x"
  proof -
    have "(2::rat) powi (e - 1) = 2 powi (bitLength p - 1) / 2 powi bitLength q"
      by (simp add: e_def power_int_diff)
    also have "\<dots> \<le> of_int p / 2 powi bitLength q"
      using P(1) by (simp add: divide_right_mono)
    also have "\<dots> < of_int p / of_int q"
      using Q(2) p q by (simp add: divide_strict_left_mono)
    finally show ?thesis by (simp add: x)
  qed
  have upper: "x < (2::rat) powi (e + 1)"
  proof -
    have "x = of_int p / of_int q" by (rule x)
    also have "\<dots> < 2 powi bitLength p / of_int q"
      using P(2) q by (simp add: divide_strict_right_mono)
    also have "\<dots> \<le> 2 powi bitLength p / 2 powi (bitLength q - 1)"
      using Q(1) by (intro frac_le) simp_all
    also have "\<dots> = 2 powi (e + 1)"
      by (simp add: e_def power_int_diff power_int_add)
    finally show ?thesis .
  qed
  have ex: "exponent x = (if 2 powi e \<le> x then e else e - 1)"
    by (simp add: exponent_def pq e_def Let_def)
  show ?thesis
  proof (cases "2 powi e \<le> x")
    case True
    with upper show ?thesis by (simp add: ex)
  next
    case False
    with lower show ?thesis by (simp add: ex)
  qed
qed

lemma roundTiesToEven_floor: "\<lfloor>x\<rfloor> \<le> roundTiesToEven x"
  by (simp add: roundTiesToEven_def Let_def)

lemma roundTiesToEven_error: "\<bar>of_int (roundTiesToEven x) - x\<bar> \<le> 1 / 2"
proof -
  define n where "n = \<lfloor>x\<rfloor>"
  define r where "r = x - of_int n"
  have r: "0 \<le> r" "r < 1"
    unfolding r_def n_def by linarith+
  have x: "x = of_int n + r"
    by (simp add: r_def)
  have "roundTiesToEven x = (if r < 1 / 2 then n else if 1 / 2 < r then n + 1 else if even n then n else n + 1)"
    by (simp add: roundTiesToEven_def Let_def n_def r_def)
  then show ?thesis
    using r by (auto simp: x)
qed

lemma toDouble_pos:
  assumes "0 < x"
  shows "0 < toDouble x"
proof -
  define ulp :: rat where "ulp = 2 powi (exponent x - 52)"
  have ulp: "0 < ulp" by (simp add: ulp_def)
  have "2 powi exponent x \<le> x"
    using exponent_bounds [OF assms] by simp
  moreover have "(2::rat) powi exponent x = 2 ^ 52 * ulp"
    by (simp add: ulp_def power_int_diff)
  ultimately have "2 ^ 52 * ulp \<le> x" by simp
  then have "2 ^ 52 \<le> x / ulp"
    using ulp by (simp add: pos_le_divide_eq)
  then have "(1::rat) \<le> x / ulp" by simp
  then have "1 \<le> \<lfloor>x / ulp\<rfloor>" by linarith
  then have "0 < roundTiesToEven (x / ulp)"
    using roundTiesToEven_floor [of "x / ulp"] by linarith
  then have "0 < of_int (roundTiesToEven (x / ulp)) * ulp"
    using ulp by simp
  then show ?thesis
    using assms by (simp add: toDouble_def Let_def ulp_def)
qed

lemma toDouble_minus: "toDouble (- x) = - toDouble x"
  by (simp add: toDouble_def Let_def)

lemma toDouble_zero: "toDouble 0 = 0"
  by (simp add: toDouble_def)

lemma toDouble_nonneg: "0 \<le> x \<Longrightarrow> 0 \<le> toDouble x"
  using toDouble_pos [of x] by (cases "x = 0") (simp_all add: toDouble_zero less_le)

lemma toDouble_le_zero: "toDouble x \<le> 0 \<longleftrightarrow> x \<le> 0"
proof (cases "0 < x")
  case True
  with toDouble_pos [of x] show ?thesis by simp
next
  case False
  then have "0 \<le> - x" by simp
  from toDouble_nonneg [OF this] False show ?thesis
    by (simp add: toDouble_minus)
qed

lemma toDouble_error: "\<bar>toDouble x - x\<bar> \<le> \<bar>x\<bar> / 2 ^ 53"
proof (cases "x = 0")
  case True
  then show ?thesis by (simp add: toDouble_zero)
next
  case False
  define a where "a = \<bar>x\<bar>"
  define ulp :: rat where "ulp = 2 powi (exponent a - 52)"
  have a: "0 < a" using False by (simp add: a_def)
  have ulp: "0 < ulp" by (simp add: ulp_def)
  have "2 powi exponent a \<le> a"
    using exponent_bounds [OF a] by simp
  moreover have "(2::rat) powi exponent a = 2 ^ 52 * ulp"
    by (simp add: ulp_def power_int_diff)
  ultimately have big: "2 ^ 52 * ulp \<le> a" by simp
  have td: "toDouble x = sgn x * (of_int (roundTiesToEven (a / ulp)) * ulp)"
    using False by (simp add: toDouble_def Let_def a_def ulp_def)
  have "x = sgn x * a"
    by (simp add: a_def sgn_mult_abs)
  then have "toDouble x - x = sgn x * ((of_int (roundTiesToEven (a / ulp)) - a / ulp) * ulp)"
    using ulp by (simp add: td algebra_simps)
  then have "\<bar>toDouble x - x\<bar> = \<bar>of_int (roundTiesToEven (a / ulp)) - a / ulp\<bar> * ulp"
    using False ulp by (simp add: abs_mult abs_sgn_eq)
  also have "\<dots> \<le> 1 / 2 * ulp"
    using roundTiesToEven_error [of "a / ulp"] ulp by (simp add: mult_right_mono)
  also have "\<dots> \<le> a / 2 ^ 53"
    using big by simp
  finally show ?thesis by (simp add: a_def)
qed

lemma toDouble_near: "\<bar>x\<bar> \<le> b \<Longrightarrow> \<bar>toDouble x - x\<bar> \<le> b / 2 ^ 53"
proof -
  assume "\<bar>x\<bar> \<le> b"
  then have "\<bar>x\<bar> / 2 ^ 53 \<le> b / 2 ^ 53"
    by (simp add: divide_right_mono)
  with toDouble_error [of x] show ?thesis by linarith
qed

lemma roundTiesToEven_le: "x \<le> of_int n \<Longrightarrow> roundTiesToEven x \<le> n"
proof -
  assume x: "x \<le> of_int n"
  define f where "f = \<lfloor>x\<rfloor>"
  define r where "r = x - of_int f"
  have fn: "f \<le> n" using x unfolding f_def by (simp add: floor_le_iff)
  have r: "0 \<le> r" "r < 1" unfolding r_def f_def by linarith+
  have rt: "roundTiesToEven x = (if r < 1 / 2 then f else if 1 / 2 < r then f + 1 else if even f then f else f + 1)"
    by (simp add: roundTiesToEven_def Let_def f_def r_def)
  show ?thesis
  proof (cases "f = n")
    case True
    then have "r \<le> 0" using x by (simp add: r_def)
    with r have "r = 0" by simp
    then show ?thesis using True by (simp add: rt)
  next
    case False
    with fn have "f + 1 \<le> n" by simp
    then show ?thesis by (simp add: rt)
  qed
qed

lemma toDouble_one: "toDouble 1 = 1"
  by code_simp

lemma toDouble_le_one: "x \<le> 1 \<Longrightarrow> toDouble x \<le> 1"
proof -
  assume le: "x \<le> 1"
  consider "x \<le> 0" | "x = 1" | "0 < x" "x < 1" using le by linarith
  then show ?thesis
  proof cases
    case 1
    then have "toDouble x \<le> 0" by (simp add: toDouble_le_zero)
    then show ?thesis by simp
  next
    case 2
    then show ?thesis by (simp add: toDouble_one)
  next
    case 3
    define k where "k = 52 - exponent x"
    define ulp :: rat where "ulp = 2 powi (exponent x - 52)"
    have "(2::rat) powi exponent x < 2 powi 0"
      using exponent_bounds [OF 3(1)] 3(2) by simp
    then have "exponent x < 0"
      by (rule power_int_le_imp_less_exp [rotated]) simp_all
    then have k: "0 \<le> k" by (simp add: k_def)
    have ulp: "0 < ulp" by (simp add: ulp_def)
    have inv: "1 / ulp = of_int (2 ^ nat k)"
      using k by (simp add: ulp_def k_def power_int_def field_simps) 
    have "x / ulp \<le> 1 / ulp"
      using le ulp by (simp add: divide_right_mono)
    then have "roundTiesToEven (x / ulp) \<le> 2 ^ nat k"
      unfolding inv by (rule roundTiesToEven_le)
    then have "(of_int (roundTiesToEven (x / ulp)) :: rat) \<le> of_int (2 ^ nat k)"
      by (simp only: of_int_le_iff)
    then have "of_int (roundTiesToEven (x / ulp)) * ulp \<le> of_int (2 ^ nat k) * ulp"
      using ulp by (simp add: mult_right_mono)
    also have "\<dots> = 1"
      using inv ulp by (simp add: field_simps)
    finally show ?thesis
      using 3(1) by (simp add: toDouble_def Let_def ulp_def)
  qed
qed

text \<open>
  Some values: the literal \<open>0.1\<close>; the product \<open>0.1875 * 0.3\<close>, which is
  \<open>0.056249999999999994\<close> and is reported as \<open>5.62\<close>, where the exact product \<open>0.05625\<close>
  would be reported as \<open>5.63\<close>; and the sum \<open>0.1 + 0.2\<close>, which is \<open>0.30000000000000004\<close>.
\<close>

lemma toDouble_tenth: "toDouble (1 / 10) = 3602879701896397 / 36028797018963968"
  by code_simp

lemma fmul_example:
  "fmul (1875 / 10000) (toDouble (3 / 10)) = toDouble (56249999999999994 / 1000000000000000000)
   \<and> fdiv (Math_round (fmul (fmul (fmul (1875 / 10000) (toDouble (3 / 10))) 100) 100)) 100
       = toDouble (562 / 100)
   \<and> fdiv (Math_round (fmul (fmul (1875 / 10000 * (3 / 10)) 100) 100)) 100 = toDouble (563 / 100)"
  by code_simp

lemma fadd_example:
  "fadd (toDouble (1 / 10)) (toDouble (2 / 10)) = toDouble (30000000000000004 / 100000000000000000)
   \<and> fadd (toDouble (1 / 10)) (toDouble (2 / 10)) \<noteq> toDouble (3 / 10)"
  by code_simp

subsection \<open>The double loop and the sort\<close>

lemma compareAll_kept:
  "compareAll det ps = map (\<lambda>(i, j). pairResult (ps ! i) (ps ! j)) (keptPairs det ps)"
proof -
  have inner: "concat (map (\<lambda>j. comparePair det (ps ! i) (ps ! j)) js)
      = map (\<lambda>(i, j). pairResult (ps ! i) (ps ! j))
          (filter (\<lambda>(i, j). threshold det \<le> pairSimilarity (ps ! i) (ps ! j)) (map (Pair i) js))" for i js
    by (induction js) (auto simp: comparePair_def)
  have outer: "concat (map (\<lambda>i. concat (map (\<lambda>j. comparePair det (ps ! i) (ps ! j)) (g i))) ns)
      = map (\<lambda>(i, j). pairResult (ps ! i) (ps ! j))
          (filter (\<lambda>(i, j). threshold det \<le> pairSimilarity (ps ! i) (ps ! j))
             (concat (map (\<lambda>i. map (Pair i) (g i)) ns)))" for g ns
    by (induction ns) (auto simp: inner)
  show ?thesis
    unfolding compareAll_def keptPairs_def indexPairs_def by (rule outer)
qed

lemma indexPairs_set: "set (indexPairs n) = {(i, j). i < j \<and> j < n}"
  by (fastforce simp: indexPairs_def)

lemma set_compareAll:
  "set (compareAll det ps) =
     {pairResult (ps ! i) (ps ! j) | i j.
        i < j \<and> j < length ps \<and> threshold det \<le> pairSimilarity (ps ! i) (ps ! j)}"
  by (auto simp: compareAll_kept keptPairs_def indexPairs_set image_iff)

lemma insertBy_insort:
  "insertBy (\<lambda>a b. fsub (key b) (key a)) x ys = insort_key (\<lambda>r. - key r) x ys"
  by (induction ys) (auto simp: fsub_def toDouble_le_zero)

lemma arraySort_sort_key:
  "arraySort (\<lambda>a b. fsub (key b) (key a)) xs = sort_key (\<lambda>r. - key r) xs"
  by (induction xs) (auto simp: arraySort_def sort_key_def insertBy_insort)

lemma detectPlagiarism_sorted_discovered:
  "detectPlagiarism md5 fs det filesData =
     sort_key (\<lambda>r. - similarity r) (discovered md5 fs det filesData)"
  by (simp add: detectPlagiarism_def discovered_def processAll_def Let_def
      arraySort_sort_key [symmetric] arraySort_def)

lemma processAll_threshold:
  "processAll md5 fs (det\<lparr>threshold := t\<rparr>) filesData = processAll md5 fs det filesData"
proof -
  have "processFile md5 fs (det\<lparr>threshold := t\<rparr>) = processFile md5 fs det"
    by (rule ext) (simp add: processFile_def)
  then show ?thesis by (simp add: processAll_def)
qed

lemma length_processAll_le: "length (processAll md5 fs det filesData) \<le> length filesData"
  by (induction filesData) (auto simp: processAll_def processFile_def Let_def)

lemma processAll_member:
  "x \<in> set (processAll md5 fs det filesData) \<Longrightarrow>
     code_hash x = md5 (normalized_code x) \<and> normalized_code x \<noteq> []"
  by (auto simp: processAll_def processFile_def Let_def trim_def split: if_splits)

text \<open>The results of a run are the results of the pairs that reach the threshold.\<close>

lemma detectPlagiarism_results:
  "set (detectPlagiarism md5 fs det filesData) =
     (if length (processAll md5 fs det filesData) < 2 then {}
      else {pairResult (processAll md5 fs det filesData ! i) (processAll md5 fs det filesData ! j) | i j.
              i < j \<and> j < length (processAll md5 fs det filesData)
              \<and> threshold det \<le> pairSimilarity (processAll md5 fs det filesData ! i)
                                   (processAll md5 fs det filesData ! j)})"
proof (cases "length (processAll md5 fs det filesData) < 2")
  case True
  then show ?thesis
    by (simp add: detectPlagiarism_sorted_discovered discovered_def)
next
  case False
  then have "\<not> length filesData < 2"
    using length_processAll_le [of md5 fs det filesData] by simp
  with False show ?thesis
    by (simp add: detectPlagiarism_sorted_discovered discovered_def set_compareAll)
qed

text \<open>The double loop visits the index pairs in lexicographic order.\<close>

lemma indexPairs_ordered:
  "sorted_wrt (\<lambda>(i, j) (i', j'). i < i' \<or> i = i' \<and> j < j') (indexPairs n)"
proof -
  have inner: "sorted_wrt (\<lambda>(i, j) (i', j'). i < i' \<or> i = i' \<and> j < j') (map (Pair i) [a ..< n])" for i a
    by (simp add: sorted_wrt_map sorted_wrt_iff_nth_less)
  have outer: "sorted_wrt (\<lambda>(i, j) (i', j'). i < i' \<or> i = i' \<and> j < j')
      (concat (map (\<lambda>i. map (Pair i) [i + 1 ..< n]) [a ..< b]))" for a b
  proof (induction b)
    case 0
    then show ?case by simp
  next
    case (Suc b)
    show ?case
    proof (cases "a \<le> b")
      case True
      then have "[a ..< Suc b] = [a ..< b] @ [b]" by simp
      with Suc inner [of b "b + 1"] show ?thesis
        by (auto simp: sorted_wrt_append)
    next
      case False
      then show ?thesis by simp
    qed
  qed
  show ?thesis unfolding indexPairs_def by (rule outer)
qed

subsection \<open>The scores lie in the unit interval\<close>

lemma fdiv_nonneg: "0 \<le> x \<Longrightarrow> 0 \<le> y \<Longrightarrow> 0 \<le> fdiv x y"
  by (simp add: fdiv_def toDouble_nonneg)

lemma fmul_nonneg: "0 \<le> x \<Longrightarrow> 0 \<le> y \<Longrightarrow> 0 \<le> fmul x y"
  by (simp add: fmul_def toDouble_nonneg)

lemma fadd_nonneg: "0 \<le> x \<Longrightarrow> 0 \<le> y \<Longrightarrow> 0 \<le> fadd x y"
  by (simp add: fadd_def toDouble_nonneg)

lemma fmul_commute: "fmul x y = fmul y x"
  by (simp add: fmul_def mult.commute)

lemma compareTwoStrings_nonneg: "0 \<le> compareTwoStrings a b"
  by (simp add: compareTwoStrings_def Let_def fdiv_nonneg)

lemma jaccardSim_nonneg: "0 \<le> jaccardSim a b"
  by (simp add: jaccardSim_def Let_def fdiv_nonneg)

lemma lineSim_nonneg: "0 \<le> lineSim a b"
  by (simp add: lineSim_def Let_def fdiv_nonneg)

lemma blend_nonneg:
  "0 \<le> s \<Longrightarrow> 0 \<le> j \<Longrightarrow> 0 \<le> l \<Longrightarrow>
   0 \<le> fadd (fadd (fmul s (toDouble (4 / 10))) (fmul j (toDouble (3 / 10)))) (fmul l (toDouble (3 / 10)))"
  by (intro fadd_nonneg fmul_nonneg toDouble_nonneg) simp_all

lemma calculateSimilarity_range: "0 \<le> calculateSimilarity a b \<and> calculateSimilarity a b \<le> 1"
  using blend_nonneg [OF compareTwoStrings_nonneg [of a b] jaccardSim_nonneg [of a b] lineSim_nonneg [of a b]]
  by (simp add: calculateSimilarity_def Let_def)

lemma pairSimilarity_range: "0 \<le> pairSimilarity fa fb \<and> pairSimilarity fa fb \<le> 1"
  using calculateSimilarity_range by (simp add: pairSimilarity_def)

text \<open>
  The character-overlap signal is at most 1: the intersection that \<open>compareTwoStrings\<close>
  counts is the intersection of the two multisets of bigrams.
\<close>

lemma tableCount_foldl:
  "tableCount (foldl countBigram m bs) b = tableCount m b + count (mset bs) b"
  by (induction bs arbitrary: m) (auto simp: tableCount_def countBigram_def split: option.splits)

lemma intersectBigrams_size:
  "\<forall>b. tableCount m b = count M b \<Longrightarrow> intersectBigrams m bs k = k + size (M \<inter># mset bs)"
proof (induction bs arbitrary: m M k)
  case Nil
  then show ?case by simp
next
  case (Cons b bs)
  have n: "(case m b of Some n \<Rightarrow> n | None \<Rightarrow> 0) = count M b"
    using Cons.prems [rule_format, of b] by (simp add: tableCount_def)
  show ?case
  proof (cases "count M b > 0")
    case True
    then have inM: "b \<in># M" by simp
    have "\<forall>c. tableCount (m(b \<mapsto> count M b - 1)) c = count (M - {#b#}) c"
      using Cons.prems by (auto simp: tableCount_def)
    then have "intersectBigrams (m(b \<mapsto> count M b - 1)) bs (k + 1)
        = (k + 1) + size ((M - {#b#}) \<inter># mset bs)"
      by (rule Cons.IH)
    moreover have "intersectBigrams m (b # bs) k = intersectBigrams (m(b \<mapsto> count M b - 1)) bs (k + 1)"
      using True by (simp only: intersectBigrams.simps n Let_def if_True)
    moreover have "size (M \<inter># mset (b # bs)) = 1 + size ((M - {#b#}) \<inter># mset bs)"
      by (simp add: inter_add_right2 [OF inM])
    ultimately show ?thesis by simp
  next
    case False
    then have notin: "\<not> b \<in># M" by (simp add: not_in_iff)
    have "intersectBigrams m bs k = k + size (M \<inter># mset bs)"
      using Cons.prems by (rule Cons.IH)
    moreover have "intersectBigrams m (b # bs) k = intersectBigrams m bs k"
      using False by (simp only: intersectBigrams.simps n Let_def if_False)
    moreover have "size (M \<inter># mset (b # bs)) = size (M \<inter># mset bs)"
      by (simp add: inter_add_right1 [OF notin])
    ultimately show ?thesis by simp
  qed
qed

lemma intersection_size:
  "intersectBigrams (foldl countBigram Map.empty as) bs 0 = size (mset as \<inter># mset bs)"
proof -
  have "\<forall>b. tableCount (foldl countBigram Map.empty as) b = count (mset as) b"
    by (simp add: tableCount_foldl) (simp add: tableCount_def)
  from intersectBigrams_size [OF this] show ?thesis by simp
qed

lemma fdiv_le_one: "0 \<le> x \<Longrightarrow> x \<le> y \<Longrightarrow> fdiv x y \<le> 1"
  unfolding fdiv_def by (rule toDouble_le_one) (auto simp: divide_le_eq_1)

lemma length_bigrams: "length (bigrams s) = length s - 1"
  by (simp add: bigrams_def)

lemma compareTwoStrings_le_one: "compareTwoStrings a b \<le> 1"
proof -
  have "2 * (of_nat (intersectBigrams (foldl countBigram Map.empty (bigrams x)) (bigrams y) 0) :: rat)
      \<le> of_nat (length x + length y - 2)" if "\<not> length x < 2" "\<not> length y < 2" for x y
  proof -
    let ?k = "size (mset (bigrams x) \<inter># mset (bigrams y))"
    have "?k \<le> size (mset (bigrams x))" "?k \<le> size (mset (bigrams y))"
      by (rule size_mset_mono, rule subset_mset.inf_le1, rule size_mset_mono, rule subset_mset.inf_le2)
    then have "2 * ?k \<le> length x + length y - 2"
      using that by (simp add: length_bigrams)
    then have "(of_nat (2 * ?k) :: rat) \<le> of_nat (length x + length y - 2)"
      by (simp only: of_nat_le_iff)
    then show ?thesis
      by (simp add: intersection_size)
  qed
  then show ?thesis
    by (simp add: compareTwoStrings_def Let_def fdiv_le_one)
qed

subsection \<open>The token sets\<close>

lemma newSet_set: "set (newSet xs) = set xs"
  by (induction xs) auto

lemma newSet_distinct: "distinct (newSet xs)"
  by (induction xs) (auto simp: newSet_set)

lemma length_newSet: "length (newSet xs) = card (set xs)"
  using distinct_card [OF newSet_distinct, of xs] by (simp add: newSet_set)

lemma jaccardSim_spec: "jaccardSim a b = spec_tokenJaccard a b"
proof -
  have "set (filter (\<lambda>x. x \<in> set ys) xs) = set xs \<inter> set ys" for xs ys :: "string list"
    by auto
  then show ?thesis
    by (auto simp add: jaccardSim_def spec_tokenJaccard_def spec_tokenSet_def Let_def
        length_newSet newSet_set simp flip: set_empty)
qed

lemma spec_tokenJaccard_range: "0 \<le> spec_tokenJaccard a b \<and> spec_tokenJaccard a b \<le> 1"
proof -
  have "card (spec_tokenSet a \<inter> spec_tokenSet b) \<le> card (spec_tokenSet a \<union> spec_tokenSet b)"
    by (intro card_mono) (auto simp: spec_tokenSet_def)
  then show ?thesis
    by (simp add: spec_tokenJaccard_def fdiv_le_one fdiv_nonneg)
qed

subsection \<open>The line coverage\<close>

lemma trim_eq_Nil: "trim l = [] \<longleftrightarrow> (\<forall>c \<in> set l. isSpace c)"
proof
  assume "\<forall>c \<in> set l. isSpace c"
  then have d: "dropWhile isSpace l = []" by simp
  show "trim l = []" unfolding trim_def d by simp
next
  assume "trim l = []"
  then have a: "\<forall>c \<in> set (dropWhile isSpace l). isSpace c"
    by (simp add: trim_def)
  show "\<forall>c \<in> set l. isSpace c"
  proof (rule ccontr)
    assume "\<not> (\<forall>c \<in> set l. isSpace c)"
    then have ne: "dropWhile isSpace l \<noteq> []" by simp
    from hd_dropWhile [OF ne] a ne show False
      by (metis list.set_sel(1))
  qed
qed

lemma nonBlankLines_spec: "nonBlankLines text = spec_nonBlankLines text"
  by (simp add: nonBlankLines_def spec_nonBlankLines_def trim_eq_Nil)

lemma lines2Loop_spec:
  "lines2Loop line1 lines2 n = (if spec_matched lines2 line1 then n + 1 else n)"
  by (induction lines2) (auto simp: spec_matched_def)

lemma lines1Loop_spec:
  "lines1Loop lines1 lines2 n = n + length (filter (spec_matched lines2) lines1)"
  by (induction lines1 arbitrary: n) (simp_all add: lines2Loop_spec)

lemma lineSim_spec: "lineSim a b = spec_lineCoverage a b"
  by (simp add: lineSim_def spec_lineCoverage_def Let_def nonBlankLines_spec lines1Loop_spec)

lemma spec_lineCoverage_range: "0 \<le> spec_lineCoverage a b \<and> spec_lineCoverage a b \<le> 1"
proof -
  have "length (filter P xs) \<le> max (length xs) n" for P and xs :: "string list" and n
    using length_filter_le [of P xs] by linarith
  then show ?thesis
    by (simp add: spec_lineCoverage_def Let_def fdiv_le_one fdiv_nonneg)
qed

subsection \<open>The combined score\<close>

text \<open>
  The weights as binary64 values, and the distance between the reported number and the
  exact blend of three signals in the unit interval: half a unit of the second decimal
  for the rounding to two decimals, and less than \<open>10 ^ - 12\<close> for the nine roundings of
  the binary64 operations.
\<close>

lemma weight_04: "toDouble (4 / 10) = 3602879701896397 / 9007199254740992"
  by code_simp

lemma weight_03: "toDouble (3 / 10) = 5404319552844595 / 18014398509481984"
  by code_simp

lemma report_near:
  fixes d j l :: rat
  assumes d: "0 \<le> d" "d \<le> 1" and j: "0 \<le> j" "j \<le> 1" and l: "0 \<le> l" "l \<le> 1"
  defines "blend \<equiv> fadd (fadd (fmul (toDouble (4 / 10)) d) (fmul (toDouble (3 / 10)) j))
                         (fmul (toDouble (3 / 10)) l)"
  shows "\<bar>fdiv (Math_round (fmul (fmul (max 0 (min 1 blend)) 100) 100)) 100
          - 100 * max 0 (min 1 (4 / 10 * d + 3 / 10 * j + 3 / 10 * l))\<bar>
         \<le> 1 / 200 + 1 / 10 ^ 12"
proof -
  define c4 :: rat where "c4 = 3602879701896397 / 9007199254740992"
  define c3 :: rat where "c3 = 5404319552844595 / 18014398509481984"
  define u :: rat where "u = 1 / 2 ^ 53"
  define a1 where "a1 = toDouble (c4 * d)"
  define a2 where "a2 = toDouble (c3 * j)"
  define a3 where "a3 = toDouble (c3 * l)"
  define s1 where "s1 = toDouble (a1 + a2)"
  define s2 where "s2 = toDouble (s1 + a3)"
  define c where "c = max 0 (min 1 s2)"
  define p1 where "p1 = toDouble (c * 100)"
  define p2 where "p2 = toDouble (p1 * 100)"
  define n where "n = \<lfloor>p2 + 1 / 2\<rfloor>"
  define r where "r = toDouble (of_int n / 100)"
  have blend: "blend = s2"
    unfolding blend_def s2_def s1_def a1_def a2_def a3_def fadd_def fmul_def weight_04 weight_03
      c4_def c3_def ..
  have bound: "\<bar>toDouble x - x\<bar> \<le> b * u" if "\<bar>x\<bar> \<le> b" for x b
    using toDouble_near [OF that] by (simp add: u_def)
  have u: "u = 1 / 9007199254740992" by (simp add: u_def)
  have e1: "\<bar>a1 - c4 * d\<bar> \<le> 1 * u"
    unfolding a1_def using d unfolding c4_def by (intro bound) linarith
  have e2: "\<bar>a2 - c3 * j\<bar> \<le> 1 * u"
    unfolding a2_def using j unfolding c3_def by (intro bound) linarith
  have e3: "\<bar>a3 - c3 * l\<bar> \<le> 1 * u"
    unfolding a3_def using l unfolding c3_def by (intro bound) linarith
  have e4: "\<bar>s1 - (a1 + a2)\<bar> \<le> 4 * u"
    unfolding s1_def using e1 e2 d j u unfolding c3_def c4_def by (intro bound) linarith
  have e5: "\<bar>s2 - (s1 + a3)\<bar> \<le> 8 * u"
    unfolding s2_def using e1 e2 e3 e4 d j l u unfolding c3_def c4_def by (intro bound) linarith
  have c01: "0 \<le> c" "c \<le> 1" by (simp_all add: c_def)
  have e6: "\<bar>p1 - c * 100\<bar> \<le> 128 * u"
    unfolding p1_def using c01 by (intro bound) linarith
  have e7: "\<bar>p2 - p1 * 100\<bar> \<le> 16384 * u"
    unfolding p2_def using e6 c01 u by (intro bound) linarith
  have e8: "\<bar>of_int n - p2\<bar> \<le> 1 / 2"
    unfolding n_def by linarith
  have e9: "\<bar>r - of_int n / 100\<bar> \<le> 128 * u"
    unfolding r_def using e8 e7 e6 c01 u by (intro bound) linarith
  define x where "x = max 0 (min 1 (4 / 10 * d + 3 / 10 * j + 3 / 10 * l))"
  have exact: "\<bar>c - x\<bar> \<le> 16 * u"
  proof -
    have "\<bar>s2 - (4 / 10 * d + 3 / 10 * j + 3 / 10 * l)\<bar> \<le> 16 * u"
      using e1 e2 e3 e4 e5 d j l u unfolding c3_def c4_def by linarith
    moreover have "\<bar>max 0 (min 1 y) - max 0 (min 1 z)\<bar> \<le> \<bar>y - z\<bar>" for y z :: rat
      by linarith
    ultimately show ?thesis
      unfolding c_def x_def by (rule order_trans [rotated])
  qed
  have "\<bar>r - 100 * x\<bar> \<le> 1 / 200 + 1 / 1000000000000"
    using e6 e7 e8 e9 exact u by linarith
  then have near: "\<bar>r - 100 * x\<bar> \<le> 1 / 200 + 1 / 10 ^ 12"
    by simp
  have "fdiv (Math_round (fmul (fmul (max 0 (min 1 blend)) 100) 100)) 100 = r"
    by (simp add: blend fdiv_def fmul_def Math_round_def r_def n_def p2_def p1_def c_def)
  with near show ?thesis
    by (simp add: x_def)
qed

text \<open>
  C1: for every pair of non-empty normalized texts whose fingerprints differ, the reported
  similarity is the weighted blend 0.4 character-Dice + 0.3 token-Jaccard + 0.3
  line-coverage, clamped to [0,1], as a percentage rounded to two decimals; the
  token-Jaccard index is the size of the intersection over the size of the union of the
  lowercase token sets, and 0 when the union is empty. The blend, the percentage and the
  rounding are computed with the numbers of JavaScript (the specification speaks of the
  floating-point weighting), in the order in which the specification writes them; the
  reported number differs from the percentage of the blend computed without rounding by
  at most half a unit of the second decimal and \<open>10 ^ - 12\<close>. The reported similarity of a
  pair is the field \<open>similarity\<close> of the result pushed for it; by
  \<open>detectPlagiarism_results\<close> the results of a run are exactly the results pushed for the
  pairs that reach the threshold.
\<close>

theorem weighted_blend_reported:
  assumes "code_hash fileA \<noteq> code_hash fileB"
      and "normalized_code fileA \<noteq> []" and "normalized_code fileB \<noteq> []"
  shows "similarity (pairResult fileA fileB)
           = spec_combinedScore (normalized_code fileA) (normalized_code fileB)
       \<and> \<bar>similarity (pairResult fileA fileB)
            - spec_exactScore (normalized_code fileA) (normalized_code fileB)\<bar>
           \<le> 1 / 200 + 1 / 10 ^ 12"
proof -
  let ?a = "normalized_code fileA" and ?b = "normalized_code fileB"
  let ?blend = "fadd (fadd (fmul (toDouble (4 / 10)) (compareTwoStrings ?a ?b))
                           (fmul (toDouble (3 / 10)) (spec_tokenJaccard ?a ?b)))
                     (fmul (toDouble (3 / 10)) (spec_lineCoverage ?a ?b))"
  have nonneg: "0 \<le> ?blend"
    using blend_nonneg [OF compareTwoStrings_nonneg [of ?a ?b] jaccardSim_nonneg [of ?a ?b]
        lineSim_nonneg [of ?a ?b]]
    by (simp add: jaccardSim_spec lineSim_spec fmul_commute)
  have "pairSimilarity fileA fileB = min ?blend 1"
    using assms
    by (simp add: pairSimilarity_def calculateSimilarity_def Let_def jaccardSim_spec lineSim_spec
        fmul_commute)
  also have "\<dots> = max 0 (min 1 ?blend)"
    using nonneg by (simp add: min_def max_def)
  finally have "pairSimilarity fileA fileB = max 0 (min 1 ?blend)" .
  then have reported: "similarity (pairResult fileA fileB)
      = fdiv (Math_round (fmul (fmul (max 0 (min 1 ?blend)) 100) 100)) 100"
    by (simp add: pairResult_def Let_def)
  then have 1: "similarity (pairResult fileA fileB) = spec_combinedScore ?a ?b"
    by (simp add: spec_combinedScore_def spec_roundTwoDecimals_def spec_percentage_def Let_def)
  have 2: "\<bar>similarity (pairResult fileA fileB) - spec_exactScore ?a ?b\<bar> \<le> 1 / 200 + 1 / 10 ^ 12"
    unfolding reported spec_exactScore_def
    using compareTwoStrings_nonneg [of ?a ?b] compareTwoStrings_le_one [of ?a ?b]
      spec_tokenJaccard_range [of ?a ?b] spec_lineCoverage_range [of ?a ?b]
    by (intro report_near) simp_all
  from 1 2 show ?thesis by simp
qed

lemma example_processed_ac:
  "processAll (\<lambda>s. s) exampleFs exampleDetector [exampleFile ''a'', exampleFile ''c'']
   = [\<lparr>p_student_name = ''a'', p_student_id = ''a'', p_file_id = ''a'',
        raw_code = ''# note\<newline>x=1\<newline>print(x)'',
        normalized_code = ''var0=1\<newline>print(var0)'', p_upload_order = 0,
        code_hash = ''var0=1\<newline>print(var0)''\<rparr>,
      \<lparr>p_student_name = ''c'', p_student_id = ''c'', p_file_id = ''c'',
        raw_code = ''total = 0\<newline>for k in range(10):\<newline>    total = total + k'',
        normalized_code = ''var0 = 0\<newline>for var1 in range(10):\<newline>var0 = var0 + var1'',
        p_upload_order = 0,
        code_hash = ''var0 = 0\<newline>for var1 in range(10):\<newline>var0 = var0 + var1''\<rparr>]"
  by code_simp

lemma example_score_ac:
  "spec_combinedScore ''var0=1\<newline>print(var0)''
     ''var0 = 0\<newline>for var1 in range(10):\<newline>var0 = var0 + var1'' = toDouble (1667 / 100)"
  by code_simp

theorem weighted_blend_reported_witness:
  "similarity (pairResult
      (processAll (\<lambda>s. s) exampleFs exampleDetector [exampleFile ''a'', exampleFile ''c''] ! 0)
      (processAll (\<lambda>s. s) exampleFs exampleDetector [exampleFile ''a'', exampleFile ''c''] ! 1))
   = toDouble (1667 / 100)
   \<and> \<bar>toDouble (1667 / 100)
        - spec_exactScore ''var0=1\<newline>print(var0)''
            ''var0 = 0\<newline>for var1 in range(10):\<newline>var0 = var0 + var1''\<bar>
       \<le> 1 / 200 + 1 / 10 ^ 12"
  using weighted_blend_reported
    [of "processAll (\<lambda>s. s) exampleFs exampleDetector [exampleFile ''a'', exampleFile ''c''] ! 0"
        "processAll (\<lambda>s. s) exampleFs exampleDetector [exampleFile ''a'', exampleFile ''c''] ! 1"]
  by (auto simp: example_processed_ac example_score_ac)

subsection \<open>The fingerprint short-circuit\<close>

lemma report_of_one: "fdiv (Math_round (fmul (fmul 1 100) 100)) 100 = 100"
  by code_simp

lemma similarity_pairResult_hash:
  "code_hash fa = code_hash fb \<Longrightarrow> similarity (pairResult fa fb) = 100"
  by (simp add: pairResult_def pairSimilarity_def Let_def report_of_one)

text \<open>
  C2: two processed submissions whose normalized code has the same fingerprint (in
  particular, the same normalized code) score exactly 100: the score of the pair is set
  to 1 by the comparison of the fingerprints, whatever the weighted metrics of the two
  texts are, and the result of the pair is among the results of the run whenever the
  threshold is at most 1.
\<close>

theorem same_fingerprint_scores_100:
  assumes ps: "ps = processAll md5 fs det filesData" and ij: "i < j" "j < length ps"
    and same: "normalized_code (ps ! i) = normalized_code (ps ! j) \<or> code_hash (ps ! i) = code_hash (ps ! j)"
  shows "pairSimilarity (ps ! i) (ps ! j) = 1
       \<and> similarity (pairResult (ps ! i) (ps ! j)) = 100
       \<and> (threshold det \<le> 1 \<longrightarrow>
            pairResult (ps ! i) (ps ! j) \<in> set (detectPlagiarism md5 fs det filesData))"
proof -
  have "ps ! i \<in> set ps" "ps ! j \<in> set ps"
    using ij by simp_all
  then have "code_hash (ps ! i) = md5 (normalized_code (ps ! i))"
    "code_hash (ps ! j) = md5 (normalized_code (ps ! j))"
    using processAll_member [of _ md5 fs det filesData] by (simp_all add: ps)
  with same have h: "code_hash (ps ! i) = code_hash (ps ! j)"
    by auto
  then have one: "pairSimilarity (ps ! i) (ps ! j) = 1"
    by (simp add: pairSimilarity_def)
  have two: "2 \<le> length ps" "2 \<le> length filesData"
    using ij length_processAll_le [of md5 fs det filesData] by (simp_all add: ps)
  have "pairResult (ps ! i) (ps ! j) \<in> set (detectPlagiarism md5 fs det filesData)"
    if "threshold det \<le> 1"
  proof -
    have "pairResult (ps ! i) (ps ! j) \<in> set (compareAll det ps)"
      unfolding set_compareAll using ij one that
      by (intro CollectI exI [of _ i] exI [of _ j]) simp
    then show ?thesis
      using two by (simp add: detectPlagiarism_sorted_discovered discovered_def ps)
  qed
  with one similarity_pairResult_hash [OF h] show ?thesis by simp
qed

lemma example_processed_ab_length:
  "1 < length (processAll (\<lambda>s. s) exampleFs exampleDetector [exampleFile ''a'', exampleFile ''b''])"
  by code_simp

lemma example_processed_ab_same:
  "normalized_code (processAll (\<lambda>s. s) exampleFs exampleDetector [exampleFile ''a'', exampleFile ''b''] ! 0)
   = normalized_code (processAll (\<lambda>s. s) exampleFs exampleDetector [exampleFile ''a'', exampleFile ''b''] ! 1)"
  by code_simp

theorem same_fingerprint_scores_100_witness:
  "similarity (pairResult
      (processAll (\<lambda>s. s) exampleFs exampleDetector [exampleFile ''a'', exampleFile ''b''] ! 0)
      (processAll (\<lambda>s. s) exampleFs exampleDetector [exampleFile ''a'', exampleFile ''b''] ! 1)) = 100
   \<and> pairResult
      (processAll (\<lambda>s. s) exampleFs exampleDetector [exampleFile ''a'', exampleFile ''b''] ! 0)
      (processAll (\<lambda>s. s) exampleFs exampleDetector [exampleFile ''a'', exampleFile ''b''] ! 1)
     \<in> set (detectPlagiarism (\<lambda>s. s) exampleFs exampleDetector [exampleFile ''a'', exampleFile ''b''])"
proof -
  have t: "threshold exampleDetector \<le> 1"
    by (simp add: exampleDetector_def)
  show ?thesis
    using same_fingerprint_scores_100
      [OF refl _ example_processed_ab_length disjI1 [OF example_processed_ab_same]] t
    by simp
qed

text \<open>
  The short-circuit is what gives 100: the weighted metrics of a text without tokens
  against itself stay at 0.7.
\<close>

lemma weighted_metrics_of_equal_texts: "calculateSimilarity ''++'' ''++'' = toDouble (7 / 10)"
  by code_simp

subsection \<open>The threshold\<close>

lemma keptPairs_mono:
  assumes "t1 \<le> t2"
  shows "keptPairs (det\<lparr>threshold := t2\<rparr>) ps
       = filter (\<lambda>(i, j). t2 \<le> pairSimilarity (ps ! i) (ps ! j)) (keptPairs (det\<lparr>threshold := t1\<rparr>) ps)"
  using assms by (auto simp: keptPairs_def intro!: filter_cong)

lemma discovered_mono:
  assumes "t1 \<le> t2"
  shows "mset (discovered md5 fs (det\<lparr>threshold := t2\<rparr>) fd)
      \<subseteq># mset (discovered md5 fs (det\<lparr>threshold := t1\<rparr>) fd)"
proof -
  let ?ps = "processAll md5 fs det fd"
  have "mset (compareAll (det\<lparr>threshold := t2\<rparr>) ?ps) \<subseteq># mset (compareAll (det\<lparr>threshold := t1\<rparr>) ?ps)"
    unfolding compareAll_kept keptPairs_mono [OF assms, of det ?ps]
    by (simp only: mset_map mset_filter) (rule image_mset_subseteq_mono, rule multiset_filter_subset)
  then show ?thesis
    by (simp add: discovered_def processAll_threshold)
qed

text \<open>
  C6: for a fixed batch and thresholds \<open>t1 \<le> t2\<close>, the results at \<open>t2\<close> are among the
  results at \<open>t1\<close> (as multisets, and so as sets), and they are not more.
\<close>

theorem threshold_monotone:
  assumes "t1 \<le> t2"
  shows "mset (detectPlagiarism md5 fs (det\<lparr>threshold := t2\<rparr>) filesData)
           \<subseteq># mset (detectPlagiarism md5 fs (det\<lparr>threshold := t1\<rparr>) filesData)
       \<and> set (detectPlagiarism md5 fs (det\<lparr>threshold := t2\<rparr>) filesData)
           \<subseteq> set (detectPlagiarism md5 fs (det\<lparr>threshold := t1\<rparr>) filesData)
       \<and> length (detectPlagiarism md5 fs (det\<lparr>threshold := t2\<rparr>) filesData)
           \<le> length (detectPlagiarism md5 fs (det\<lparr>threshold := t1\<rparr>) filesData)"
proof -
  have m: "mset (detectPlagiarism md5 fs (det\<lparr>threshold := t2\<rparr>) filesData)
           \<subseteq># mset (detectPlagiarism md5 fs (det\<lparr>threshold := t1\<rparr>) filesData)"
    using discovered_mono [OF assms] by (simp add: detectPlagiarism_sorted_discovered)
  from set_mset_mono [OF m] size_mset_mono [OF m] m show ?thesis by simp
qed

lemma keptPairs_all: "threshold det \<le> 0 \<Longrightarrow> keptPairs det ps = indexPairs (length ps)"
proof -
  assume "threshold det \<le> 0"
  then have "threshold det \<le> pairSimilarity fa fb" for fa fb :: "'a processed_file"
    using pairSimilarity_range [of fa fb] by simp
  then show ?thesis
    by (simp add: keptPairs_def)
qed

lemma keptPairs_none: "1 < threshold det \<Longrightarrow> keptPairs det ps = []"
proof -
  assume "1 < threshold det"
  then have "\<not> threshold det \<le> pairSimilarity fa fb" for fa fb :: "'a processed_file"
    using pairSimilarity_range [of fa fb] by simp
  then show ?thesis
    by (simp add: keptPairs_def)
qed

lemma length_detectPlagiarism:
  "length (detectPlagiarism md5 fs det filesData) = length (discovered md5 fs det filesData)"
  by (simp add: detectPlagiarism_sorted_discovered)

lemma length_discovered:
  "length (discovered md5 fs det filesData) = length (keptPairs det (processAll md5 fs det filesData))"
proof (cases "length (processAll md5 fs det filesData) < 2")
  case True
  then have "indexPairs (length (processAll md5 fs det filesData)) = []"
    using indexPairs_set [of "length (processAll md5 fs det filesData)"]
    by (auto simp flip: set_empty)
  with True show ?thesis
    by (simp add: discovered_def keptPairs_def)
next
  case False
  then have "\<not> length filesData < 2"
    using length_processAll_le [of md5 fs det filesData] by simp
  with False show ?thesis
    by (simp add: discovered_def compareAll_kept)
qed

lemma length_indexPairs: "length (indexPairs n) = n * (n - 1) div 2"
proof -
  have "length (indexPairs n) = (\<Sum>i = 0..<n. n - Suc i)"
    by (simp add: indexPairs_def length_concat comp_def interv_sum_list_conv_sum_set_nat)
  also have "\<dots> = (\<Sum>i = 0..<n. i)"
    by (rule sum.reindex_bij_witness [of _ "\<lambda>i. n - Suc i" "\<lambda>i. n - Suc i"]) auto
  also have "\<dots> = n * (n - 1) div 2"
    by (simp add: Sum_Ico_nat)
  finally show ?thesis .
qed

lemma example_processed_abc:
  "length (processAll (\<lambda>s. s) exampleFs (exampleDetector\<lparr>threshold := 0\<rparr>)
     [exampleFile ''a'', exampleFile ''b'', exampleFile ''c'']) = 3"
  by code_simp

lemma example_results_at_0:
  "length (detectPlagiarism (\<lambda>s. s) exampleFs (exampleDetector\<lparr>threshold := 0\<rparr>)
     [exampleFile ''a'', exampleFile ''b'', exampleFile ''c'']) = 3"
  by (simp add: length_detectPlagiarism length_discovered keptPairs_all length_indexPairs
      example_processed_abc)

lemma example_results_at_half:
  "map similarity (detectPlagiarism (\<lambda>s. s) exampleFs (exampleDetector\<lparr>threshold := 5 / 10\<rparr>)
     [exampleFile ''a'', exampleFile ''b'', exampleFile ''c'']) = [100]"
  by code_simp

theorem threshold_monotone_witness:
  "set (detectPlagiarism (\<lambda>s. s) exampleFs (exampleDetector\<lparr>threshold := 5 / 10\<rparr>)
          [exampleFile ''a'', exampleFile ''b'', exampleFile ''c''])
     \<subseteq> set (detectPlagiarism (\<lambda>s. s) exampleFs (exampleDetector\<lparr>threshold := 0\<rparr>)
          [exampleFile ''a'', exampleFile ''b'', exampleFile ''c''])
   \<and> length (detectPlagiarism (\<lambda>s. s) exampleFs (exampleDetector\<lparr>threshold := 5 / 10\<rparr>)
          [exampleFile ''a'', exampleFile ''b'', exampleFile ''c'']) = 1
   \<and> length (detectPlagiarism (\<lambda>s. s) exampleFs (exampleDetector\<lparr>threshold := 0\<rparr>)
          [exampleFile ''a'', exampleFile ''b'', exampleFile ''c'']) = 3"
proof -
  have le: "(0 :: rat) \<le> 5 / 10" by simp
  have "length (map similarity (detectPlagiarism (\<lambda>s. s) exampleFs (exampleDetector\<lparr>threshold := 5 / 10\<rparr>)
          [exampleFile ''a'', exampleFile ''b'', exampleFile ''c''])) = 1"
    by (simp only: example_results_at_half) simp
  then show ?thesis
    using threshold_monotone [OF le, of "\<lambda>s. s" exampleFs exampleDetector
        "[exampleFile ''a'', exampleFile ''b'', exampleFile ''c'']"]
      example_results_at_0
    by simp
qed

subsection \<open>The order of the results\<close>

text \<open>
  C7: the results of a run are sorted by descending score, and results of equal score
  keep the order in which the double loop found them (the pair with the lower index pair
  first); three results scoring 90, 70 and 95, found in that order, come out as
  95, 90, 70.
\<close>

theorem results_sorted_stable:
  "sorted_wrt (\<lambda>a b. similarity a \<ge> similarity b) (detectPlagiarism md5 fs det filesData)
   \<and> (\<forall>s. filter (\<lambda>r. similarity r = s) (detectPlagiarism md5 fs det filesData)
          = filter (\<lambda>r. similarity r = s) (discovered md5 fs det filesData))
   \<and> map similarity (arraySort (\<lambda>a b. fsub (similarity b) (similarity a))
        [r1\<lparr>similarity := 90\<rparr>, r2\<lparr>similarity := 70\<rparr>, r3\<lparr>similarity := 95\<rparr>]) = [95, 90, 70]"
proof -
  let ?D = "detectPlagiarism md5 fs det filesData"
  have "sorted (map (\<lambda>r. - similarity r) ?D)"
    by (simp add: detectPlagiarism_sorted_discovered)
  then have s: "sorted_wrt (\<lambda>a b. similarity a \<ge> similarity b) ?D"
    by (simp add: sorted_map sorted_wrt_iff_nth_less)
  have st: "filter (\<lambda>r. similarity r = s) ?D = filter (\<lambda>r. similarity r = s) (discovered md5 fs det filesData)" for s
    using sort_key_stable [of "\<lambda>r. - similarity r" "- s" "discovered md5 fs det filesData"]
    by (simp add: detectPlagiarism_sorted_discovered)
  have ex: "map similarity (arraySort (\<lambda>a b. fsub (similarity b) (similarity a))
        [r1\<lparr>similarity := 90\<rparr>, r2\<lparr>similarity := 70\<rparr>, r3\<lparr>similarity := 95\<rparr>]) = [95, 90, 70]"
    by (simp add: arraySort_def fsub_def toDouble_le_zero)
  from s st ex show ?thesis by blast
qed

subsection \<open>The line matcher\<close>

lemma matchLoop_length_le:
  "length matches \<le> maxMatches \<Longrightarrow>
   length (matchLoop line2Set lines2 maxMatches i lines1 matches) \<le> maxMatches"
proof (induction lines1 arbitrary: i matches)
  case Nil
  then show ?case by simp
next
  case (Cons line1 rest)
  show ?case
  proof (cases "length matches < maxMatches")
    case True
    then have le: "length (matches @ [m]) \<le> maxMatches" for m by simp
    show ?thesis
      using True Cons.IH [OF le] Cons.IH [OF Cons.prems]
      by (simp split: option.splits prod.splits)
  next
    case False
    with Cons.prems show ?thesis by simp
  qed
qed

lemma matchLoop_length_exact:
  "length matches \<le> maxMatches \<Longrightarrow>
   maxMatches \<le> length matches + length lines1 \<Longrightarrow>
   \<forall>l \<in> set (take (maxMatches - length matches) lines1). line2Set l \<noteq> None \<Longrightarrow>
   length (matchLoop line2Set lines2 maxMatches i lines1 matches) = maxMatches"
proof (induction lines1 arbitrary: i matches)
  case Nil
  then show ?case by simp
next
  case (Cons line1 rest)
  show ?case
  proof (cases "length matches < maxMatches")
    case True
    then obtain k where k: "maxMatches - length matches = Suc k"
      by (cases "maxMatches - length matches") auto
    with Cons.prems(3) obtain indices where idx: "line2Set line1 = Some indices"
      by auto
    let ?m = "matches @ [\<lparr>lineA = i + 1, lineB = hd indices + 1, code = line1, line_similarity = 100\<rparr>]"
    have 1: "length ?m \<le> maxMatches" using True by simp
    have 2: "maxMatches \<le> length ?m + length rest" using Cons.prems(2) by simp
    have "maxMatches - length ?m = k" using k by simp
    then have 3: "\<forall>l \<in> set (take (maxMatches - length ?m) rest). line2Set l \<noteq> None"
      using Cons.prems(3) k by simp
    show ?thesis
      using True idx Cons.IH [OF 1 2 3] by simp
  next
    case False
    with Cons.prems show ?thesis by simp
  qed
qed

lemma foldl_index_dom:
  "dom (foldl (\<lambda>line2Set (line, index).
              line2Set(line \<mapsto> (case line2Set line of Some indices \<Rightarrow> indices | None \<Rightarrow> []) @ [index])) m xs)
   = dom m \<union> fst ` set xs"
  by (induction xs arbitrary: m) (auto split: prod.splits)

lemma indexLines_dom: "dom (indexLines lines2) = set lines2"
proof -
  have "fst ` set (zip lines2 [0..<length lines2]) = set lines2"
    by (metis length_upt map_fst_zip minus_nat.diff_0 set_map)
  then show ?thesis
    by (simp add: indexLines_def foldl_index_dom)
qed

text \<open>
  C8: the line matcher returns at most \<open>maxMatches\<close> entries (20 in every call of the
  detector), and exactly that many when the first text has at least that many non-blank
  lines and the first \<open>maxMatches\<close> of them occur among the lines of the second text; so
  two texts with the same 50 non-blank lines give 20 entries, not 50.
\<close>

theorem findMatchingLines_capped:
  "length (findMatchingLines code1 code2 maxMatches) \<le> maxMatches
   \<and> (maxMatches \<le> length (trimmedLines code1)
        \<and> set (take maxMatches (trimmedLines code1)) \<subseteq> set (trimmedLines code2)
      \<longrightarrow> length (findMatchingLines code1 code2 maxMatches) = maxMatches)"
proof -
  have le: "length (findMatchingLines code1 code2 maxMatches) \<le> maxMatches"
    by (simp add: findMatchingLines_def Let_def matchLoop_length_le)
  have ex: "length (findMatchingLines code1 code2 maxMatches) = maxMatches"
    if "maxMatches \<le> length (trimmedLines code1)"
      and "set (take maxMatches (trimmedLines code1)) \<subseteq> set (trimmedLines code2)"
  proof -
    have "\<forall>l \<in> set (take (maxMatches - length ([] :: line_match list)) (trimmedLines code1)).
            indexLines (trimmedLines code2) l \<noteq> None"
      using that(2) indexLines_dom [of "trimmedLines code2"] by auto
    then show ?thesis
      using that(1) by (simp add: findMatchingLines_def Let_def matchLoop_length_exact)
  qed
  from le ex show ?thesis by blast
qed

lemma fiftyLines_length: "length (trimmedLines fiftyLines) = 50"
  by code_simp

theorem findMatchingLines_capped_witness:
  "length (trimmedLines fiftyLines) = 50
   \<and> length (findMatchingLines fiftyLines fiftyLines 20) = 20"
  using findMatchingLines_capped [of fiftyLines fiftyLines 20]
    set_take_subset [of 20 "trimmedLines fiftyLines"]
  by (simp add: fiftyLines_length)

subsection \<open>Empty texts\<close>

text \<open>
  C10: the pairwise similarity function returns 0 whenever either argument is the empty
  string; in particular the empty text scored against itself gives 0, not 100.
\<close>

theorem calculateSimilarity_empty:
  "calculateSimilarity [] code2 = 0 \<and> calculateSimilarity code1 [] = 0 \<and> calculateSimilarity [] [] = 0"
  by (simp add: calculateSimilarity_def)

subsection \<open>Symmetry of the score\<close>

lemma compareTwoStrings_sym: "compareTwoStrings a b = compareTwoStrings b a"
proof -
  have "intersectBigrams (foldl countBigram Map.empty as) bs 0
      = intersectBigrams (foldl countBigram Map.empty bs) as 0" for as bs
    by (simp add: intersection_size multiset_inter_commute)
  then show ?thesis
    by (auto simp: compareTwoStrings_def Let_def add.commute)
qed

lemma spec_tokenJaccard_sym: "spec_tokenJaccard a b = spec_tokenJaccard b a"
  by (simp add: spec_tokenJaccard_def Un_commute Int_commute)

text \<open>
  C3, as the code has it: the character-Dice signal and the token-Jaccard signal are
  symmetric, and the combined score of (A, B) equals that of (B, A) whenever the line
  coverage of A in B equals the line coverage of B in A. The line coverage counts the
  lines of the first text that have a similar line in the second, so it depends on the
  order of the two texts, and with it the combined score.
\<close>

theorem scorer_symmetric_up_to_line_coverage:
  "compareTwoStrings a b = compareTwoStrings b a
   \<and> jaccardSim a b = jaccardSim b a
   \<and> (lineSim a b = lineSim b a \<longrightarrow> calculateSimilarity a b = calculateSimilarity b a)"
  using compareTwoStrings_sym [of a b] spec_tokenJaccard_sym [of a b]
  by (auto simp: calculateSimilarity_def jaccardSim_spec Let_def)

lemma example_score_forward:
  "calculateSimilarity ''ab\<newline>ab'' ''ab\<newline>cd'' = toDouble (5833333333333333 / 10000000000000000)"
  by code_simp
lemma example_score_backward:
  "calculateSimilarity ''ab\<newline>cd'' ''ab\<newline>ab'' = toDouble (43333333333333335 / 100000000000000000)"
  by code_simp
lemma example_scores_differ:
  "toDouble (5833333333333333 / 10000000000000000) \<noteq> toDouble (43333333333333335 / 100000000000000000)"
  by code_simp

text \<open>
  The texts \<open>ab, ab\<close> and \<open>ab, cd\<close> (two lines each): both lines of the first have a
  similar line in the second, one line of the second has a similar line in the first.
  The scores are the numbers \<open>0.5833333333333333\<close> (7/12 rounded) and
  \<open>0.43333333333333335\<close> (13/30 rounded).
\<close>

theorem scorer_symmetric_counterexample:
  "calculateSimilarity ''ab\<newline>ab'' ''ab\<newline>cd'' = toDouble (5833333333333333 / 10000000000000000)
   \<and> calculateSimilarity ''ab\<newline>cd'' ''ab\<newline>ab'' = toDouble (43333333333333335 / 100000000000000000)
   \<and> calculateSimilarity ''ab\<newline>ab'' ''ab\<newline>cd'' \<noteq> calculateSimilarity ''ab\<newline>cd'' ''ab\<newline>ab''"
  using example_scores_differ by (simp add: example_score_forward example_score_backward)

lemma example_coverage_forward: "lineSim ''ab\<newline>cd'' ''ab\<newline>ef'' = 1 / 2"
  by code_simp
lemma example_coverage_backward: "lineSim ''ab\<newline>ef'' ''ab\<newline>cd'' = 1 / 2"
  by code_simp
theorem scorer_symmetric_up_to_line_coverage_witness:
  "lineSim ''ab\<newline>cd'' ''ab\<newline>ef'' = lineSim ''ab\<newline>ef'' ''ab\<newline>cd''
   \<and> calculateSimilarity ''ab\<newline>cd'' ''ab\<newline>ef'' = calculateSimilarity ''ab\<newline>ef'' ''ab\<newline>cd''"
  using scorer_symmetric_up_to_line_coverage [of "''ab\<newline>cd''" "''ab\<newline>ef''"]
  by (simp add: example_coverage_forward example_coverage_backward)

subsection \<open>The handler: too few submissions, and the threshold\<close>

lemma processAll_any_threshold:
  "processAll md5 fs \<lparr>threshold = t, normalizeVars = v\<rparr> filesData
   = processAll md5 fs \<lparr>threshold = 0, normalizeVars = v\<rparr> filesData"
  using processAll_threshold [where det = "\<lparr>threshold = 0, normalizeVars = v\<rparr>" and t = t] by simp

lemma detectPlagiarism_few:
  "length (processAll md5 fs det filesData) < 2 \<Longrightarrow> detectPlagiarism md5 fs det filesData = []"
  by (simp add: detectPlagiarism_def processAll_def Let_def)

lemma analyze_few_files:
  "length (files db) < 2 \<Longrightarrow>
   analyze md5 fs uuid now body db = (Status 400 ''At least 2 files are required for analysis'', db)"
  by (simp add: analyze_def Let_def)

lemma analyze_run:
  "2 \<le> length (files db) \<Longrightarrow>
   analyze md5 fs uuid now body db =
     (let res = detectPlagiarism md5 fs \<lparr>threshold = requestThreshold body, normalizeVars = True\<rparr> (requestFiles db);
          run = \<lparr>run_id = uuid, analysis_timestamp = now, run_threshold = requestThreshold body,
                 results = res, total_files = min 100 (length (files db)), run_total_matches = length res\<rparr>
      in (Json run, db\<lparr>analysis_results := analysis_results db @ [run]\<rparr>))"
  by (simp add: analyze_def Let_def requestThreshold_def requestFiles_def min_def)

text \<open>
  C4, as the code has it: with fewer than 2 stored files the handler answers with the
  error 400 and leaves the database as it is. The detector returns the empty list when
  fewer than 2 submissions are usable; so with at least 2 stored files of which fewer
  than 2 are usable the handler answers with a run that has no results, and stores it.
\<close>

theorem analyze_insufficient_input:
  "(length (files db1) < 2 \<longrightarrow>
      analyze md5 fs uuid now body db1
        = (Status 400 ''At least 2 files are required for analysis'', db1))
   \<and> (length (processAll md5 fs det filesData) < 2 \<longrightarrow> detectPlagiarism md5 fs det filesData = [])
   \<and> (2 \<le> length (files db) \<and> usable md5 fs db < 2 \<longrightarrow>
        (\<exists>run. analyze md5 fs uuid now body db
                 = (Json run, db\<lparr>analysis_results := analysis_results db @ [run]\<rparr>)
               \<and> results run = [] \<and> run_total_matches run = 0))"
proof -
  have "\<exists>run. analyze md5 fs uuid now body db
                 = (Json run, db\<lparr>analysis_results := analysis_results db @ [run]\<rparr>)
               \<and> results run = [] \<and> run_total_matches run = 0"
    if two: "2 \<le> length (files db)" and few: "usable md5 fs db < 2"
  proof -
    have "processAll md5 fs \<lparr>threshold = requestThreshold body, normalizeVars = True\<rparr> (requestFiles db)
        = processAll md5 fs \<lparr>threshold = 0, normalizeVars = True\<rparr> (requestFiles db)"
      by (rule processAll_any_threshold)
    then have "length (processAll md5 fs \<lparr>threshold = requestThreshold body, normalizeVars = True\<rparr>
        (requestFiles db)) < 2"
      using few by (simp add: usable_def)
    then have "detectPlagiarism md5 fs \<lparr>threshold = requestThreshold body, normalizeVars = True\<rparr> (requestFiles db) = []"
      by (rule detectPlagiarism_few)
    then show ?thesis
      by (simp add: analyze_run [OF two] Let_def)
  qed
  then show ?thesis
    using analyze_few_files detectPlagiarism_few by blast
qed

lemma example_usable_one: "usable (\<lambda>s. s) exampleFs \<lparr>files = [exampleDoc ''a'', exampleDoc ''missing''], analysis_results = []\<rparr> = 1"
  by code_simp

lemma example_processed_one:
  "length (processAll (\<lambda>s. s) exampleFs exampleDetector [exampleFile ''a'', exampleFile ''missing'']) < 2"
  by code_simp

theorem analyze_insufficient_input_witness:
  "analyze (\<lambda>s. s) exampleFs ''run-1'' ''2024-01-01T00:00:00.000Z'' None
       \<lparr>files = [exampleDoc ''a''], analysis_results = []\<rparr>
     = (Status 400 ''At least 2 files are required for analysis'',
        \<lparr>files = [exampleDoc ''a''], analysis_results = []\<rparr>)
   \<and> detectPlagiarism (\<lambda>s. s) exampleFs exampleDetector [exampleFile ''a'', exampleFile ''missing''] = []
   \<and> (\<exists>run. analyze (\<lambda>s. s) exampleFs ''run-1'' ''2024-01-01T00:00:00.000Z'' None
                \<lparr>files = [exampleDoc ''a'', exampleDoc ''missing''], analysis_results = []\<rparr>
              = (Json run, \<lparr>files = [exampleDoc ''a'', exampleDoc ''missing''], analysis_results = [run]\<rparr>)
            \<and> results run = [] \<and> run_total_matches run = 0)"
  using analyze_insufficient_input
    [of "\<lparr>files = [exampleDoc ''a''], analysis_results = []\<rparr>"
        "\<lambda>s. s" exampleFs "''run-1''" "''2024-01-01T00:00:00.000Z''" None
        exampleDetector "[exampleFile ''a'', exampleFile ''missing'']"
        "\<lparr>files = [exampleDoc ''a'', exampleDoc ''missing''], analysis_results = []\<rparr>"]
    example_processed_one
  by (simp add: example_usable_one)

text \<open>
  Two stored files, one of them unreadable: one usable submission, and the handler
  answers with a run and stores it.
\<close>

theorem analyze_insufficient_input_counterexample:
  "analyze (\<lambda>s. s) exampleFs ''run-1'' ''2024-01-01T00:00:00.000Z'' None
     \<lparr>files = [exampleDoc ''a'', exampleDoc ''missing''], analysis_results = []\<rparr>
   = (Json \<lparr>run_id = ''run-1'', analysis_timestamp = ''2024-01-01T00:00:00.000Z'',
            run_threshold = 5 / 10, results = [], total_files = 2, run_total_matches = 0\<rparr>,
      \<lparr>files = [exampleDoc ''a'', exampleDoc ''missing''],
       analysis_results =
         [\<lparr>run_id = ''run-1'', analysis_timestamp = ''2024-01-01T00:00:00.000Z'',
           run_threshold = 5 / 10, results = [], total_files = 2, run_total_matches = 0\<rparr>]\<rparr>)"
  by code_simp

text \<open>
  C5, as the code has it: the handler and the detector take any threshold as it is. With
  at least 2 stored files the handler answers with a run that carries the threshold of
  the request, and stores it; a threshold above 1 gives no result, a threshold of 0 or
  less gives a result for every pair of usable submissions.
\<close>

theorem analyze_any_threshold:
  assumes two: "2 \<le> length (files db)"
  shows "\<exists>run. analyze md5 fs uuid now (Some t) db
                 = (Json run, db\<lparr>analysis_results := analysis_results db @ [run]\<rparr>)
     \<and> run_threshold run = t
     \<and> (1 < t \<longrightarrow> results run = [])
     \<and> (t \<le> 0 \<longrightarrow> length (results run) = usable md5 fs db * (usable md5 fs db - 1) div 2)"
proof -
  let ?det = "\<lparr>threshold = t, normalizeVars = True\<rparr>"
  let ?res = "detectPlagiarism md5 fs ?det (requestFiles db)"
  have ps: "length (processAll md5 fs ?det (requestFiles db)) = usable md5 fs db"
    unfolding usable_def by (simp only: processAll_any_threshold [of md5 fs t])
  have len: "length ?res = length (keptPairs ?det (processAll md5 fs ?det (requestFiles db)))"
    by (simp only: length_detectPlagiarism length_discovered)
  have none: "?res = []" if "1 < t"
    using that len by (simp add: keptPairs_none)
  have all: "length ?res = usable md5 fs db * (usable md5 fs db - 1) div 2" if "t \<le> 0"
    using that len ps by (simp add: keptPairs_all length_indexPairs)
  show ?thesis
    using none all by (simp add: analyze_run [OF two] Let_def requestThreshold_def)
qed

lemma example_usable_three: "usable (\<lambda>s. s) exampleFs \<lparr>files = [exampleDoc ''a'', exampleDoc ''b'', exampleDoc ''c''], analysis_results = []\<rparr> = 3"
  by code_simp

theorem analyze_any_threshold_witness:
  "(\<exists>run. analyze (\<lambda>s. s) exampleFs ''run-1'' ''2024-01-01T00:00:00.000Z'' (Some 0)
             \<lparr>files = [exampleDoc ''a'', exampleDoc ''b'', exampleDoc ''c''], analysis_results = []\<rparr>
           = (Json run, \<lparr>files = [exampleDoc ''a'', exampleDoc ''b'', exampleDoc ''c''],
                          analysis_results = [run]\<rparr>)
         \<and> run_threshold run = 0 \<and> length (results run) = 3)
   \<and> (\<exists>run. analyze (\<lambda>s. s) exampleFs ''run-1'' ''2024-01-01T00:00:00.000Z'' (Some 2)
             \<lparr>files = [exampleDoc ''a'', exampleDoc ''b'', exampleDoc ''c''], analysis_results = []\<rparr>
           = (Json run, \<lparr>files = [exampleDoc ''a'', exampleDoc ''b'', exampleDoc ''c''],
                          analysis_results = [run]\<rparr>)
         \<and> run_threshold run = 2 \<and> results run = [])"
proof -
  let ?db = "\<lparr>files = [exampleDoc ''a'', exampleDoc ''b'', exampleDoc ''c''], analysis_results = []\<rparr>"
  have two: "2 \<le> length (files ?db)" by simp
  show ?thesis
    using analyze_any_threshold [OF two, of "\<lambda>s. s" exampleFs "''run-1''" "''2024-01-01T00:00:00.000Z''" 0]
      analyze_any_threshold [OF two, of "\<lambda>s. s" exampleFs "''run-1''" "''2024-01-01T00:00:00.000Z''" 2]
    by (simp add: example_usable_three)
qed

text \<open>The threshold 0, outside (0,1]: the two submissions are compared and reported.\<close>

theorem analyze_any_threshold_counterexample:
  "fst (analyze (\<lambda>s. s) exampleFs ''run-1'' ''2024-01-01T00:00:00.000Z'' (Some 0)
     \<lparr>files = [exampleDoc ''a'', exampleDoc ''b''], analysis_results = []\<rparr>)
   = Json \<lparr>run_id = ''run-1'', analysis_timestamp = ''2024-01-01T00:00:00.000Z'',
            run_threshold = 0,
            results = [\<lparr>studentA = ''a'', studentA_id = ''a'', fileA_id = ''a'',
                         studentB = ''b'', studentB_id = ''b'', fileB_id = ''b'',
                         similarity = 100,
                         matching_lines =
                           [\<lparr>lineA = 1, lineB = 1, code = ''var0=1'', line_similarity = 100\<rparr>,
                            \<lparr>lineA = 2, lineB = 2, code = ''print(var0)'', line_similarity = 100\<rparr>],
                         total_matches = 2\<rparr>],
            total_files = 2, run_total_matches = 1\<rparr>"
  by code_simp

section \<open>Normalization\<close>

subsection \<open>Runs and substitutions on runs\<close>

lemma concat_runs: "concat (runs s) = s"
  by (induction s) (auto split: list.splits)

lemma runs_eq_Nil: "runs s = [] \<longleftrightarrow> s = []"
  by (cases s) (auto split: list.splits)

lemma hd_runs: "s \<noteq> [] \<Longrightarrow> hd (runs s) \<noteq> [] \<and> hd (hd (runs s)) = hd s"
  by (cases s) (auto split: list.splits)

lemma altRuns_runs: "s \<noteq> [] \<Longrightarrow> altRuns (isWordChar (hd s)) (runs s)"
proof (induction s)
  case Nil
  then show ?case by simp
next
  case (Cons c cs)
  show ?case
  proof (cases "runs cs")
    case Nil
    then show ?thesis by (simp add: kindRun_def)
  next
    case (Cons r rs)
    then have ne: "cs \<noteq> []" by auto
    from Cons.IH [OF ne] hd_runs [OF ne] Cons
    show ?thesis by (auto simp: kindRun_def)
  qed
qed

lemma runs_prefix:
  "kindRun k r \<Longrightarrow> s = [] \<or> isWordChar (hd s) \<noteq> k \<Longrightarrow> runs (r @ s) = r # runs s"
proof (induction r)
  case Nil
  then show ?case by (simp add: kindRun_def)
next
  case (Cons c r)
  show ?case
  proof (cases r)
    case Nil
    show ?thesis
    proof (cases s)
      case Nil
      with \<open>r = []\<close> show ?thesis by simp
    next
      case (Cons x xs)
      then have "s \<noteq> []" by simp
      from hd_runs [OF this] Cons.prems \<open>r = []\<close> \<open>s \<noteq> []\<close>
      show ?thesis by (auto simp: kindRun_def split: list.splits)
    qed
  next
    case (Cons c' r')
    with Cons.prems have "kindRun k r" by (simp add: kindRun_def)
    from Cons.IH [OF this Cons.prems(2)] Cons.prems(1) Cons
    show ?thesis by (simp add: kindRun_def)
  qed
qed

lemma runs_concat: "altRuns k rs \<Longrightarrow> runs (concat rs) = rs"
proof (induction rs arbitrary: k)
  case Nil
  then show ?case by simp
next
  case (Cons r rs)
  then have kr: "kindRun k r" and alt: "altRuns (\<not> k) rs" by simp_all
  have "concat rs = [] \<or> isWordChar (hd (concat rs)) \<noteq> k"
  proof (cases rs)
    case Nil
    then show ?thesis by simp
  next
    case (Cons r' rs')
    with alt have "kindRun (\<not> k) r'" by simp
    then show ?thesis using Cons by (cases r') (auto simp: kindRun_def)
  qed
  from runs_prefix [OF kr this] Cons.IH [OF alt] show ?case by simp
qed

lemma altRuns_map: "preserving \<rho> \<Longrightarrow> altRuns k rs \<Longrightarrow> altRuns k (map \<rho> rs)"
  by (induction rs arbitrary: k) (auto simp: preserving_def, (metis (full_types))+)

lemma runs_msub: "preserving \<rho> \<Longrightarrow> runs (msub \<rho> s) = map \<rho> (runs s)"
proof (cases "s = []")
  case True
  then show ?thesis by (simp add: msub_def)
next
  case False
  assume "preserving \<rho>"
  from altRuns_map [OF this altRuns_runs [OF False]] show ?thesis
    unfolding msub_def by (rule runs_concat)
qed

lemma msub_compose:
  "preserving \<rho> \<Longrightarrow> msub \<tau> (msub \<rho> s) = msub (\<tau> \<circ> \<rho>) s"
  by (simp add: msub_def [of \<tau>] runs_msub) (simp add: msub_def)

lemma msub_cong: "(\<And>r. r \<in> set (runs s) \<Longrightarrow> \<rho> r = \<tau> r) \<Longrightarrow> msub \<rho> s = msub \<tau> s"
  unfolding msub_def by (rule arg_cong [where f = concat]) (rule map_cong, simp_all)

lemma runs_kind: "r \<in> set (runs s) \<Longrightarrow> kindRun True r \<or> kindRun False r"
proof -
  have "altRuns k rs \<Longrightarrow> r \<in> set rs \<Longrightarrow> kindRun True r \<or> kindRun False r" for k rs
    by (induction rs arbitrary: k) (auto, (metis (full_types))+)
  moreover assume "r \<in> set (runs s)"
  moreover from this have "s \<noteq> []" by (auto simp: runs_eq_Nil)
  ultimately show ?thesis using altRuns_runs by blast
qed

lemma last_runs: "s \<noteq> [] \<Longrightarrow> last (runs s) \<noteq> [] \<and> last (last (runs s)) = last s"
proof (induction s)
  case Nil
  then show ?case by simp
next
  case (Cons c cs)
  show ?case
  proof (cases "cs = []")
    case True
    then show ?thesis by simp
  next
    case False
    then obtain r rs where r: "runs cs = r # rs"
      by (cases "runs cs") (auto simp: runs_eq_Nil)
    from hd_runs [OF False] r have "r \<noteq> []" by simp
    with Cons.IH [OF False] False r show ?thesis
      by (cases rs) auto
  qed
qed

lemma runs_append_diff:
  "a \<noteq> [] \<Longrightarrow> b \<noteq> [] \<Longrightarrow> isWordChar (last a) \<noteq> isWordChar (hd b) \<Longrightarrow>
   runs (a @ b) = runs a @ runs b"
proof (induction a)
  case Nil
  then show ?case by simp
next
  case (Cons c a)
  show ?case
  proof (cases "a = []")
    case True
    with Cons.prems hd_runs [OF Cons.prems(2)] show ?thesis
      by (auto split: list.splits)
  next
    case False
    then obtain r rs where r: "runs a = r # rs"
      by (cases "runs a") (auto simp: runs_eq_Nil)
    from Cons.IH [OF False Cons.prems(2)] Cons.prems(3) False
    have "runs (a @ b) = runs a @ runs b" by simp
    with r show ?thesis by simp
  qed
qed

lemma runs_append_same:
  "a \<noteq> [] \<Longrightarrow> b \<noteq> [] \<Longrightarrow> isWordChar (last a) = isWordChar (hd b) \<Longrightarrow>
   runs (a @ b) = butlast (runs a) @ [last (runs a) @ hd (runs b)] @ tl (runs b)"
proof (induction a)
  case Nil
  then show ?case by simp
next
  case (Cons c a)
  obtain r' rs' where rb: "runs b = r' # rs'"
    using Cons.prems(2) by (cases "runs b") (auto simp: runs_eq_Nil)
  show ?case
  proof (cases "a = []")
    case True
    with Cons.prems hd_runs [OF Cons.prems(2)] rb show ?thesis
      by auto
  next
    case False
    then obtain r rs where r: "runs a = r # rs"
      by (cases "runs a") (auto simp: runs_eq_Nil)
    from hd_runs [OF False] r have rne: "r \<noteq> []" by simp
    from Cons.IH [OF False Cons.prems(2)] Cons.prems(3) False
    have IH: "runs (a @ b) = butlast (runs a) @ [last (runs a) @ hd (runs b)] @ tl (runs b)" by simp
    show ?thesis
    proof (cases rs)
      case Nil
      with IH r rb rne show ?thesis by (cases r) auto
    next
      case (Cons r2 rs2)
      with IH r rb show ?thesis by auto
    qed
  qed
qed

lemma msub_append:
  assumes p: "preserving \<rho>"
    and clean: "a = [] \<or> b = [] \<or> \<not> isWordChar (last a) \<or> \<not> isWordChar (hd b)"
  shows "msub \<rho> (a @ b) = msub \<rho> a @ msub \<rho> b"
proof (cases "a = [] \<or> b = []")
  case True
  then show ?thesis by (auto simp: msub_def)
next
  case False
  then have ne: "a \<noteq> []" "b \<noteq> []" by simp_all
  show ?thesis
  proof (cases "isWordChar (last a) = isWordChar (hd b)")
    case False
    from runs_append_diff [OF ne False] show ?thesis by (simp add: msub_def)
  next
    case True
    with clean ne have gap: "\<not> isWordChar (last a)" "\<not> isWordChar (hd b)" by auto
    let ?la = "last (runs a)" and ?hb = "hd (runs b)"
    have rne: "runs a \<noteq> []" "runs b \<noteq> []" using ne by (simp_all add: runs_eq_Nil)
    have "?la \<in> set (runs a)" "?hb \<in> set (runs b)" using rne by simp_all
    then have "kindRun True ?la \<or> kindRun False ?la" "kindRun True ?hb \<or> kindRun False ?hb"
      using runs_kind by blast+
    moreover have "\<not> kindRun True ?la"
    proof
      assume "kindRun True ?la"
      then have "isWordChar (last ?la)" by (simp add: kindRun_def list_all_iff)
      with last_runs [OF ne(1)] gap show False by simp
    qed
    moreover have "\<not> kindRun True ?hb"
    proof
      assume "kindRun True ?hb"
      then have "isWordChar (hd ?hb)" by (simp add: kindRun_def list_all_iff)
      with hd_runs [OF ne(2)] gap show False by simp
    qed
    ultimately have k: "kindRun False ?la" "kindRun False ?hb" by blast+
    then have "kindRun False (?la @ ?hb)" by (simp add: kindRun_def)
    with k p have fixed: "\<rho> ?la = ?la" "\<rho> ?hb = ?hb" "\<rho> (?la @ ?hb) = ?la @ ?hb"
      by (simp_all add: preserving_def)
    have "msub \<rho> (a @ b) = concat (map \<rho> (butlast (runs a))) @ (?la @ ?hb) @ concat (map \<rho> (tl (runs b)))"
      by (simp add: msub_def runs_append_same [OF ne True] fixed)
    also have "\<dots> = concat (map \<rho> (butlast (runs a) @ [?la])) @ concat (map \<rho> (?hb # tl (runs b)))"
      by (simp add: fixed)
    also have "\<dots> = msub \<rho> a @ msub \<rho> b"
      using append_butlast_last_id [OF rne(1)] list.collapse [OF rne(2)] by (simp add: msub_def)
    finally show ?thesis .
  qed
qed

lemma msub_Cons_gap: "preserving \<rho> \<Longrightarrow> \<not> isWordChar c \<Longrightarrow> msub \<rho> (c # s) = c # msub \<rho> s"
proof -
  assume p: "preserving \<rho>" and g: "\<not> isWordChar c"
  then have "\<rho> [c] = [c]" by (simp add: preserving_def kindRun_def)
  then have "msub \<rho> [c] = [c]" by (simp add: msub_def)
  with msub_append [OF p, of "[c]" s] g show ?thesis by simp
qed

lemma msub_join:
  "preserving \<rho> \<Longrightarrow> \<not> isWordChar n \<Longrightarrow> msub \<rho> (join [n] ls) = join [n] (map (msub \<rho>) ls)"
proof (induction "[n]" ls rule: join.induct)
  case 1
  then show ?case by (simp add: msub_def)
next
  case (2 x)
  then show ?case by simp
next
  case (3 x y ys)
  have "msub \<rho> (x @ (n # join [n] (y # ys))) = msub \<rho> x @ msub \<rho> (n # join [n] (y # ys))"
    using 3 by (intro msub_append) simp_all
  with 3 show ?case by (simp add: msub_Cons_gap)
qed

lemma msub_gap_chars:
  assumes p: "preserving \<rho>" and g: "\<not> isWordChar q" and q: "q \<in> set (msub \<rho> s)"
  shows "q \<in> set s"
proof -
  from q obtain r where r: "r \<in> set (runs s)" and qr: "q \<in> set (\<rho> r)"
    by (auto simp: msub_def)
  from runs_kind [OF r] show ?thesis
  proof
    assume "kindRun True r"
    with p have "kindRun True (\<rho> r)" by (simp add: preserving_def)
    with qr g show ?thesis by (auto simp: kindRun_def list_all_iff)
  next
    assume "kindRun False r"
    with p have "\<rho> r = r" by (simp add: preserving_def)
    with qr r have "q \<in> set (concat (runs s))" by auto
    then show ?thesis by (simp add: concat_runs)
  qed
qed

subsection \<open>Whitespace normalization and substitutions\<close>

lemma isSpace_gap: "isSpace c \<Longrightarrow> \<not> isWordChar c"
  by (auto simp: isSpace_def isWordChar_def isIdentStart_def isDigit_def less_eq_char_def)

lemma newline_gap: "\<not> isWordChar (CHR 0x0A)"
  by (simp add: isWordChar_def isIdentStart_def isDigit_def less_eq_char_def)

lemma split_nonempty: "split n s \<noteq> []"
  by (induction s) (auto split: list.splits)

lemma split_no_sep: "n \<notin> set s \<Longrightarrow> split n s = [s]"
  by (induction s) auto

lemma split_append_sep: "n \<notin> set x \<Longrightarrow> split n (x @ n # rest) = x # split n rest"
  by (induction x) auto

lemma split_parts_no_sep: "l \<in> set (split n s) \<Longrightarrow> n \<notin> set l"
proof (induction s arbitrary: l)
  case Nil
  then show ?case by simp
next
  case (Cons x xs)
  then show ?case
    by (cases "split n xs") (auto split: if_splits)
qed

lemma split_join:
  "ls \<noteq> [] \<Longrightarrow> \<forall>l \<in> set ls. n \<notin> set l \<Longrightarrow> split n (join [n] ls) = ls"
proof (induction "[n]" ls rule: join.induct)
  case 1
  then show ?case by simp
next
  case (2 x)
  then show ?case by (simp add: split_no_sep)
next
  case (3 x y ys)
  then show ?case by (simp add: split_append_sep)
qed

lemma trim_good: "goodLine l \<Longrightarrow> trim l = l"
proof -
  assume g: "goodLine l"
  then have "dropWhile isSpace l = l"
    by (cases l) (auto simp: goodLine_def)
  moreover have "dropWhile isSpace (rev l) = rev l"
    using g by (cases "rev l") (auto simp: goodLine_def hd_rev)
  ultimately show ?thesis by (simp add: trim_def)
qed

lemma trim_decompose: "\<exists>pre post. l = pre @ trim l @ post"
proof -
  let ?m = "dropWhile isSpace l"
  have "l = takeWhile isSpace l @ ?m" by simp
  moreover have "?m = rev (dropWhile isSpace (rev ?m)) @ rev (takeWhile isSpace (rev ?m))"
    by (metis rev_append rev_rev_ident takeWhile_dropWhile_id)
  ultimately have "l = takeWhile isSpace l @ trim l @ rev (takeWhile isSpace (rev ?m))"
    by (simp add: trim_def)
  then show ?thesis by blast
qed

lemma trim_ends: "trim l \<noteq> [] \<Longrightarrow> \<not> isSpace (hd (trim l)) \<and> \<not> isSpace (last (trim l))"
proof -
  assume ne: "trim l \<noteq> []"
  let ?m = "dropWhile isSpace l"
  let ?d = "dropWhile isSpace (rev ?m)"
  have t: "trim l = rev ?d" by (simp add: trim_def)
  with ne have dne: "?d \<noteq> []" by simp
  then have "\<not> isSpace (hd ?d)" by (rule hd_dropWhile)
  then have l: "\<not> isSpace (last (trim l))" using dne by (simp add: t last_rev)
  have "?m = rev ?d @ rev (takeWhile isSpace (rev ?m))"
    by (metis rev_append rev_rev_ident takeWhile_dropWhile_id)
  then have "hd ?m = hd (trim l)" using ne t by (metis hd_append2)
  moreover have "?m \<noteq> []"
  proof
    assume "?m = []"
    then have "?d = []" by (simp only: rev.simps dropWhile.simps)
    with dne show False by (simp only: not_True_eq_False simp_thms)
  qed
  ultimately have "\<not> isSpace (hd (trim l))" using hd_dropWhile [of isSpace l] by simp
  with l show ?thesis by simp
qed

lemma trimmedLines_good: "l \<in> set (trimmedLines x) \<Longrightarrow> goodLine l"
proof -
  assume "l \<in> set (trimmedLines x)"
  then obtain l0 where l0: "l0 \<in> set (split (CHR 0x0A) x)" and l: "l = trim l0" and ne: "l \<noteq> []"
    by (auto simp: trimmedLines_def)
  from trim_decompose [of l0] obtain pre post where "l0 = pre @ l @ post" using l by blast
  with split_parts_no_sep [OF l0] have "CHR 0x0A \<notin> set l"
    by (metis Un_iff set_append)
  with trim_ends [of l0] l ne show ?thesis by (simp add: goodLine_def)
qed

lemma normalizeWhitespace_trimmedLines:
  "normalizeWhitespace x = join [CHR 0x0A] (trimmedLines x)"
  by (simp add: normalizeWhitespace_def trimmedLines_def)

lemma trimmedLines_join_good:
  assumes "\<forall>l \<in> set ls. goodLine l"
  shows "trimmedLines (join [CHR 0x0A] ls) = ls"
proof (cases "ls = []")
  case True
  then show ?thesis by (simp add: trimmedLines_def trim_def)
next
  case False
  have "split (CHR 0x0A) (join [CHR 0x0A] ls) = ls"
    using False assms by (intro split_join) (auto simp: goodLine_def)
  moreover have "map trim ls = ls"
    using assms by (simp add: map_idI trim_good)
  moreover have "filter (\<lambda>line. line \<noteq> []) ls = ls"
    using assms by (simp add: goodLine_def)
  ultimately show ?thesis by (simp add: trimmedLines_def)
qed

lemma msub_goodLine:
  assumes p: "preserving \<rho>" and g: "goodLine l"
  shows "goodLine (msub \<rho> l)"
proof -
  from g have ne: "l \<noteq> []" by (simp add: goodLine_def)
  then have rne: "runs l \<noteq> []" by (simp add: runs_eq_Nil)
  have kinds: "kindRun True (\<rho> r) \<or> \<rho> r = r \<and> kindRun False r" if "r \<in> set (runs l)" for r
    using runs_kind [OF that] p by (auto simp: preserving_def)
  have nonempty: "\<rho> r \<noteq> []" if "r \<in> set (runs l)" for r
    using kinds [OF that] by (auto simp: kindRun_def)
  let ?h = "hd (runs l)" and ?t = "last (runs l)"
  have hin: "?h \<in> set (runs l)" and tin: "?t \<in> set (runs l)" using rne by simp_all
  obtain r rs where first_run: "runs l = r # rs"
    using rne by (cases "runs l") auto
  then have "msub \<rho> l = \<rho> ?h @ concat (map \<rho> rs)"
    by (simp add: msub_def)
  then have hd_eq: "hd (msub \<rho> l) = hd (\<rho> ?h)" and mne: "msub \<rho> l \<noteq> []"
    using nonempty [OF hin] by simp_all
  obtain rs' r' where last_run: "runs l = rs' @ [r']"
    using rne by (cases "runs l" rule: rev_cases) auto
  then have "msub \<rho> l = concat (map \<rho> rs') @ \<rho> ?t"
    by (simp add: msub_def)
  then have last_eq: "last (msub \<rho> l) = last (\<rho> ?t)"
    using nonempty [OF tin] by simp
  have "\<not> isSpace (hd (\<rho> ?h))"
    using kinds [OF hin]
  proof
    assume "kindRun True (\<rho> ?h)"
    then have "isWordChar (hd (\<rho> ?h))" by (simp add: kindRun_def list_all_iff)
    then show ?thesis using isSpace_gap by blast
  next
    assume "\<rho> ?h = ?h \<and> kindRun False ?h"
    then show ?thesis using hd_runs [OF ne] g by (simp add: goodLine_def)
  qed
  moreover have "\<not> isSpace (last (\<rho> ?t))"
    using kinds [OF tin]
  proof
    assume "kindRun True (\<rho> ?t)"
    then have "isWordChar (last (\<rho> ?t))" by (simp add: kindRun_def list_all_iff)
    then show ?thesis using isSpace_gap by blast
  next
    assume "\<rho> ?t = ?t \<and> kindRun False ?t"
    then show ?thesis using last_runs [OF ne] g by (simp add: goodLine_def)
  qed
  moreover have "CHR 0x0A \<notin> set (msub \<rho> l)"
    using msub_gap_chars [OF p newline_gap] g by (auto simp: goodLine_def)
  ultimately show ?thesis
    using mne hd_eq last_eq by (simp add: goodLine_def)
qed

lemma normalizeWhitespace_msub:
  assumes p: "preserving \<rho>"
  shows "normalizeWhitespace (msub \<rho> (normalizeWhitespace x)) = msub \<rho> (normalizeWhitespace x)"
proof -
  let ?ls = "map (msub \<rho>) (trimmedLines x)"
  have "msub \<rho> (normalizeWhitespace x) = join [CHR 0x0A] ?ls"
    by (simp add: normalizeWhitespace_trimmedLines msub_join [OF p newline_gap])
  moreover have "\<forall>l \<in> set ?ls. goodLine l"
    using trimmedLines_good msub_goodLine [OF p] by auto
  ultimately show ?thesis
    by (simp add: normalizeWhitespace_trimmedLines [of "join [CHR 0x0A] ?ls"] trimmedLines_join_good)
qed

subsection \<open>Comment stripping\<close>

lemma stripLineComments_no_hash: "CHR ''#'' \<notin> set s \<Longrightarrow> stripLineComments False s = s"
  by (induction s) auto

lemma set_stripLineComments: "set (stripLineComments b s) \<subseteq> set s - {CHR ''#''}"
  by (induction s arbitrary: b) (auto simp: isLineTerminator_def)

lemma set_findTriple: "findTriple q s = Some r \<Longrightarrow> set r \<subseteq> set s"
  by (induction q s rule: findTriple.induct) (auto split: if_splits)

lemma set_removeTriple: "set (removeTriple q s) \<subseteq> set s"
proof (induction q s rule: removeTriple.induct)
  case (1 q a b c rest)
  show ?case
  proof (cases "a = q \<and> b = q \<and> c = q")
    case True
    show ?thesis
    proof (cases "findTriple q rest")
      case None
      from 1(1) [OF True None] True None show ?thesis by auto
    next
      case (Some r)
      from 1(2) [OF True Some] set_findTriple [OF Some] True Some show ?thesis by auto
    qed
  next
    case False
    from 1(3) [OF False] False show ?thesis by auto
  qed
qed simp_all

lemma set_removeComments: "set (removeComments s) \<subseteq> set s - {CHR ''#''}"
  using set_removeTriple [of "CHR 0x27" "removeTriple (CHR 0x22) (stripLineComments False s)"]
    set_removeTriple [of "CHR 0x22" "stripLineComments False s"]
    set_stripLineComments [of False s]
  unfolding removeComments_def by blast

lemma set_split: "l \<in> set (split n s) \<Longrightarrow> set l \<subseteq> set s"
proof -
  have "\<forall>l \<in> set (split n s). set l \<subseteq> set s"
  proof (induction s)
    case Nil
    then show ?case by simp
  next
    case (Cons x xs)
    show ?case
    proof (cases "split n xs")
      case Nil
      then show ?thesis by (simp add: split_nonempty)
    next
      case (Cons a as)
      with Cons.IH have "set a \<subseteq> set xs" "\<forall>l \<in> set as. set l \<subseteq> set xs" by simp_all
      with Cons show ?thesis by auto
    qed
  qed
  then show "l \<in> set (split n s) \<Longrightarrow> set l \<subseteq> set s" by blast
qed

lemma set_join: "q \<in> set (join sep ls) \<Longrightarrow> q \<in> set sep \<or> (\<exists>l \<in> set ls. q \<in> set l)"
  by (induction sep ls rule: join.induct) auto

lemma set_trim: "set (trim l) \<subseteq> set l"
  using trim_decompose [of l] by (metis Un_iff set_append subsetI)

lemma set_normalizeWhitespace:
  "q \<in> set (normalizeWhitespace x) \<Longrightarrow> q \<noteq> CHR 0x0A \<Longrightarrow> q \<in> set x"
proof -
  assume q: "q \<in> set (normalizeWhitespace x)" and n: "q \<noteq> CHR 0x0A"
  from set_join [OF q [unfolded normalizeWhitespace_def]] n
  obtain l0 where "l0 \<in> set (split (CHR 0x0A) x)" "q \<in> set (trim l0)" by auto
  with set_trim [of l0] set_split [of l0 "CHR 0x0A" x] show ?thesis by blast
qed

subsection \<open>Generated names\<close>

lemma digit_char:
  "n < 10 \<Longrightarrow> isDigit (char_of (48 + n)) \<and> (of_char (char_of (48 + n)) :: nat) = 48 + (n :: nat)"
  by (simp add: isDigit_def less_eq_char_def)

lemma showNat_digits: "showNat n \<noteq> [] \<and> list_all isDigit (showNat n)"
proof (induction n rule: showNat.induct)
  case (1 n)
  show ?case
  proof (cases "n < 10")
    case True
    then show ?thesis using digit_char [of n] by (subst (1 2) showNat.simps) simp
  next
    case False
    then show ?thesis using 1 digit_char [of "n mod 10"] by (subst (1 2) showNat.simps) simp
  qed
qed

lemma readNat_showNat: "readNat (showNat n) = n"
proof (induction n rule: showNat.induct)
  case (1 n)
  show ?case
  proof (cases "n < 10")
    case True
    then show ?thesis using digit_char [of n] by (subst showNat.simps) (simp add: readNat_def)
  next
    case False
    then have "readNat (showNat (n div 10)) = n div 10" using 1 by simp
    then show ?thesis using False digit_char [of "n mod 10"]
      by (subst showNat.simps) (simp add: readNat_def)
  qed
qed

lemma varName_inj: "varName i = varName j \<Longrightarrow> i = j"
  by (metis append_same_eq readNat_showNat same_append_eq varName_def)

lemma varName_isVarName: "isVarName (varName k)"
  using showNat_digits [of k] by (simp add: isVarName_def varName_def)

lemma isDigit_word: "isDigit c \<Longrightarrow> isWordChar c"
  by (simp add: isWordChar_def)

lemma varName_word: "kindRun True (varName k)"
  using showNat_digits [of k]
  by (auto simp: kindRun_def varName_def list_all_iff isDigit_word isWordChar_def isIdentStart_def less_eq_char_def)

lemma varName_identifier: "isIdentifier (varName k)"
  by (simp add: isIdentifier_def varName_def isIdentStart_def less_eq_char_def)

lemma varName_not_keyword: "varName k \<notin> set keywords_set"
  by (simp add: keywords_set_def varName_def)

subsection \<open>The variable mapping\<close>

lemma isIdentifier_word: "r \<in> set (runs s) \<Longrightarrow> isIdentifier r \<Longrightarrow> kindRun True r"
proof -
  assume r: "r \<in> set (runs s)" and i: "isIdentifier r"
  then have "isWordChar (hd r)" "r \<noteq> []" by (simp_all add: isIdentifier_def isWordChar_def)
  then have "\<not> kindRun False r" by (cases r) (auto simp: kindRun_def)
  with runs_kind [OF r] show ?thesis by blast
qed

lemma replaceWord_msub: "replaceWord orig new s = msub (\<lambda>r. if r = orig then new else r) s"
  by (simp add: replaceWord_def msub_def)

lemma preserving_replace:
  "kindRun True orig \<Longrightarrow> kindRun True new \<Longrightarrow> preserving (\<lambda>r. if r = orig then new else r)"
  by (auto simp: preserving_def kindRun_def list_all_iff)

lemma msub_id: "msub (\<lambda>r. r) s = s"
  by (simp add: msub_def concat_runs)

lemma lookup_Nil: "lookup [] = (\<lambda>r. r)"
  by (rule ext) (simp add: lookup_def)

lemma lookup_fresh: "r \<notin> fst ` set m \<Longrightarrow> lookup m r = r"
proof -
  assume "r \<notin> fst ` set m"
  then have "map_of m r = None" by (simp add: map_of_eq_None_iff)
  then show ?thesis by (simp add: lookup_def)
qed

lemma sequential_is_simultaneous:
  assumes "\<forall>(orig, new) \<in> set m. kindRun True orig \<and> kindRun True new"
    and "\<forall>new \<in> snd ` set m. new \<notin> fst ` set m"
  shows "foldl (\<lambda>normalizedCode (original, normalized). replaceWord original normalized normalizedCode) s m
       = msub (lookup m) s"
  using assms
proof (induction m arbitrary: s)
  case Nil
  then show ?case by (simp add: lookup_Nil msub_id)
next
  case (Cons p m)
  obtain orig new where p: "p = (orig, new)" by (cases p)
  let ?\<rho> = "\<lambda>r. if r = orig then new else r"
  have words: "kindRun True orig" "kindRun True new" using Cons.prems(1) p by auto
  have 1: "\<forall>(orig, new) \<in> set m. kindRun True orig \<and> kindRun True new"
    using Cons.prems(1) by auto
  have 2: "\<forall>new \<in> snd ` set m. new \<notin> fst ` set m"
    using Cons.prems(2) by auto
  have new: "new \<notin> fst ` set m" using Cons.prems(2) p by auto
  have "(lookup m \<circ> ?\<rho>) r = lookup (p # m) r" for r
    using lookup_fresh [OF new] by (simp add: p lookup_def)
  then have comp: "lookup m \<circ> ?\<rho> = lookup (p # m)" by (rule ext)
  have "foldl (\<lambda>normalizedCode (original, normalized). replaceWord original normalized normalizedCode) s (p # m)
      = msub (lookup m) (msub ?\<rho> s)"
    using Cons.IH [OF 1 2] by (simp add: p replaceWord_msub)
  also have "\<dots> = msub (lookup m \<circ> ?\<rho>) s"
    by (rule msub_compose) (rule preserving_replace [OF words])
  finally show ?case by (simp only: comp)
qed

lemma preserving_lookup:
  assumes "\<forall>(orig, new) \<in> set m. kindRun True orig \<and> kindRun True new"
  shows "preserving (lookup m)"
proof -
  have "kindRun True (lookup m r)" if "kindRun True r" for r
  proof (cases "map_of m r")
    case None
    with that show ?thesis by (simp add: lookup_def)
  next
    case (Some v)
    then have "(r, v) \<in> set m" by (rule map_of_SomeD)
    with assms Some show ?thesis by (auto simp: lookup_def)
  qed
  moreover have "lookup m r = r" if "kindRun False r" for r
  proof (cases "map_of m r")
    case None
    then show ?thesis by (simp add: lookup_def)
  next
    case (Some v)
    then have "(r, v) \<in> set m" by (rule map_of_SomeD)
    with assms have "kindRun True r" by auto
    with that show ?thesis by (cases r) (auto simp: kindRun_def)
  qed
  ultimately show ?thesis by (simp add: preserving_def)
qed

lemma buildMapping_extends: "\<exists>ext. buildMapping ts acc n = acc @ ext"
proof (induction ts arbitrary: acc n)
  case Nil
  then show ?case by simp
next
  case (Cons t ts)
  show ?case
  proof (cases "t \<notin> set keywords_set \<and> map_of acc t = None")
    case True
    from Cons.IH [of "acc @ [(t, ''var'' @ showNat n)]" "n + 1"]
    obtain ext where "buildMapping ts (acc @ [(t, ''var'' @ showNat n)]) (n + 1)
        = acc @ ((t, ''var'' @ showNat n) # ext)" by auto
    with True show ?thesis by (simp del: append_assoc)
  next
    case False
    with Cons.IH [of acc n] show ?thesis by auto
  qed
qed

lemma buildMapping_keys: "fst ` set (buildMapping ts acc n) \<subseteq> fst ` set acc \<union> set ts"
proof (induction ts arbitrary: acc n)
  case Nil
  then show ?case by simp
next
  case (Cons t ts)
  show ?case
  proof (cases "t \<notin> set keywords_set \<and> map_of acc t = None")
    case True
    have "fst ` set (buildMapping ts (acc @ [(t, ''var'' @ showNat n)]) (n + 1))
        \<subseteq> fst ` set (acc @ [(t, ''var'' @ showNat n)]) \<union> set ts"
      by (rule Cons.IH)
    also have "\<dots> = fst ` set acc \<union> set (t # ts)" by auto
    finally show ?thesis using True by simp
  next
    case False
    have "fst ` set (buildMapping ts acc n) \<subseteq> fst ` set acc \<union> set ts"
      by (rule Cons.IH)
    then have "fst ` set (buildMapping ts acc n) \<subseteq> fst ` set acc \<union> set (t # ts)" by auto
    with False show ?thesis by auto
  qed
qed

lemma mapInv_length: "mapInv acc n \<Longrightarrow> length acc = n"
  by (metis diff_zero length_map length_upt mapInv_def)

lemma mapInv_step:
  assumes "mapInv acc n" "t \<notin> set keywords_set" "map_of acc t = None"
  shows "mapInv (acc @ [(t, ''var'' @ showNat n)]) (n + 1)"
  using assms by (auto simp: mapInv_def varName_def map_of_eq_None_iff)

lemma buildMapping_inv:
  "mapInv acc n \<Longrightarrow> mapInv (buildMapping ts acc n) (length (buildMapping ts acc n))"
proof (induction ts arbitrary: acc n)
  case Nil
  then show ?case using mapInv_length by auto
next
  case (Cons t ts)
  show ?case
  proof (cases "t \<notin> set keywords_set \<and> map_of acc t = None")
    case True
    then have "mapInv (acc @ [(t, ''var'' @ showNat n)]) (n + 1)"
      using mapInv_step [OF Cons.prems] by simp
    from Cons.IH [OF this] True show ?thesis by simp
  next
    case False
    with Cons.IH [OF Cons.prems] show ?thesis by auto
  qed
qed

lemma idMapping_Suc: "idMapping (Suc n) = idMapping n @ [(varName n, varName n)]"
  by (simp add: idMapping_def)

lemma idMapping_None: "map_of (idMapping n) (varName i) = None \<longleftrightarrow> \<not> i < n"
proof -
  have "map fst (idMapping n) = map varName [0..<n]"
    by (simp add: idMapping_def comp_def)
  then have "set (map fst (idMapping n)) = set (map varName [0..<n])"
    by (rule arg_cong)
  then have "fst ` set (idMapping n) = varName ` {0..<n}"
    by simp
  moreover have "varName i \<in> varName ` {0..<n} \<longleftrightarrow> i < n"
    using varName_inj by fastforce
  ultimately show ?thesis
    by (simp add: map_of_eq_None_iff)
qed

lemma mapInv_values: "mapInv acc n \<Longrightarrow> (t, v) \<in> set acc \<Longrightarrow> \<exists>i < n. v = varName i"
proof -
  assume inv: "mapInv acc n" and tv: "(t, v) \<in> set acc"
  then have "v \<in> set (map snd acc)" by force
  with inv have "v \<in> set (map varName [0..<n])" by (simp add: mapInv_def)
  then show ?thesis by auto
qed

lemma mapInv_keys: "mapInv acc n \<Longrightarrow> t \<in> set keywords_set \<Longrightarrow> map_of acc t = None"
  by (auto simp: mapInv_def list_all_iff map_of_eq_None_iff)

lemma buildMapping_lookup_kept:
  assumes "map_of acc t = Some v"
  shows "lookup (buildMapping ts acc n) t = v"
proof -
  obtain ext where "buildMapping ts acc n = acc @ ext"
    using buildMapping_extends by blast
  with assms show ?thesis by (simp add: lookup_def map_add_def)
qed

lemma buildMapping_image:
  "mapInv acc n \<Longrightarrow>
   buildMapping (map (lookup (buildMapping ts acc n)) ts) (idMapping n) n
     = idMapping (length (buildMapping ts acc n))"
proof (induction ts arbitrary: acc n)
  case Nil
  then show ?case by (simp add: mapInv_length)
next
  case (Cons t ts)
  define M where "M = buildMapping (t # ts) acc n"
  define \<sigma> where "\<sigma> = lookup M"
  have goal: "buildMapping (map \<sigma> (t # ts)) (idMapping n) n = idMapping (length M)"
  proof (cases "t \<notin> set keywords_set \<and> map_of acc t = None")
    case True
    let ?acc = "acc @ [(t, ''var'' @ showNat n)]"
    have M: "M = buildMapping ts ?acc (n + 1)" using True by (simp add: M_def)
    have inv: "mapInv ?acc (n + 1)" using mapInv_step [OF Cons.prems] True by simp
    have "map_of ?acc t = Some (varName n)" using True by (simp add: varName_def map_add_def)
    then have t: "\<sigma> t = varName n"
      unfolding \<sigma>_def M by (rule buildMapping_lookup_kept)
    have new: "varName n \<notin> set keywords_set \<and> map_of (idMapping n) (varName n) = None"
      using idMapping_None [of n n] varName_not_keyword [of n] by simp
    have "idMapping n @ [(varName n, ''var'' @ showNat n)] = idMapping (Suc n)"
      by (simp add: idMapping_Suc varName_def)
    with new have "buildMapping (map \<sigma> (t # ts)) (idMapping n) n
        = buildMapping (map \<sigma> ts) (idMapping (Suc n)) (n + 1)"
      by (simp add: t)
    also have "\<dots> = idMapping (length M)"
      unfolding M \<sigma>_def using Cons.IH [OF inv] by simp
    finally show ?thesis .
  next
    case False
    then have M: "M = buildMapping ts acc n" by (auto simp: M_def)
    have skip: "\<not> (\<sigma> t \<notin> set keywords_set \<and> map_of (idMapping n) (\<sigma> t) = None)"
    proof (cases "t \<in> set keywords_set")
      case True
      have "mapInv M (length M)" unfolding M using Cons.prems by (rule buildMapping_inv)
      from mapInv_keys [OF this True] have "\<sigma> t = t" by (simp add: lookup_def \<sigma>_def)
      with True show ?thesis by simp
    next
      case notkw: False
      with False obtain v where v: "map_of acc t = Some v" by auto
      then have "(t, v) \<in> set acc" by (rule map_of_SomeD)
      from mapInv_values [OF Cons.prems this] obtain i where i: "i < n" "v = varName i" by blast
      have "\<sigma> t = v" unfolding M \<sigma>_def using v by (rule buildMapping_lookup_kept)
      with i idMapping_None [of n i] show ?thesis by simp
    qed
    then have "buildMapping (map \<sigma> (t # ts)) (idMapping n) n
        = buildMapping (map \<sigma> ts) (idMapping n) n"
      by (simp only: list.map buildMapping.simps if_False)
    also have "\<dots> = idMapping (length M)"
      unfolding M \<sigma>_def using Cons.IH [OF Cons.prems] by simp
    finally show ?thesis .
  qed
  then show ?case by (simp only: M_def \<sigma>_def)
qed

lemma replace_idMapping:
  "foldl (\<lambda>normalizedCode (original, normalized). replaceWord original normalized normalizedCode) s
     (idMapping n) = s"
proof (induction n)
  case 0
  then show ?case by (simp add: idMapping_def)
next
  case (Suc n)
  have "replaceWord (varName n) (varName n) s = s"
    by (simp add: replaceWord_def concat_runs)
  with Suc show ?case by (simp add: idMapping_Suc)
qed

lemma identifiers_msub:
  assumes "\<forall>(orig, new) \<in> set m. isIdentifier orig \<and> kindRun True orig \<and> isIdentifier new \<and> kindRun True new"
  shows "identifiers (msub (lookup m) s) = map (lookup m) (identifiers s)"
proof -
  have p: "preserving (lookup m)"
    using assms by (intro preserving_lookup) auto
  have same: "isIdentifier (lookup m r) = isIdentifier r" for r
  proof (cases "map_of m r")
    case None
    then show ?thesis by (simp add: lookup_def)
  next
    case (Some v)
    then have "(r, v) \<in> set m" by (rule map_of_SomeD)
    with assms Some show ?thesis by (auto simp: lookup_def)
  qed
  show ?thesis
    by (simp add: identifiers_def runs_msub [OF p] filter_map comp_def same)
qed

lemma hash_gap: "\<not> isWordChar (CHR ''#'')"
  by (simp add: isWordChar_def isIdentStart_def isDigit_def less_eq_char_def)

lemma quote_gap: "\<not> isWordChar (CHR 0x22) \<and> \<not> isWordChar (CHR 0x27)"
  by (simp add: isWordChar_def isIdentStart_def isDigit_def less_eq_char_def)

lemma preserving_id: "preserving (\<lambda>r. r)"
  by (simp add: preserving_def)

lemma normalizeWhitespace_idem:
  "normalizeWhitespace (normalizeWhitespace x) = normalizeWhitespace x"
  using normalizeWhitespace_msub [OF preserving_id, of x] by (simp add: msub_id)

lemma mapping_properties:
  assumes "m = buildMapping (identifiers s) [] 0"
  shows "\<forall>(orig, new) \<in> set m. isIdentifier orig \<and> kindRun True orig \<and> isIdentifier new \<and> kindRun True new
           \<and> orig \<in> set (identifiers s) \<and> isVarName new"
proof -
  have inv: "mapInv m (length m)"
    unfolding assms by (rule buildMapping_inv) (simp add: mapInv_def)
  have keys: "fst ` set m \<subseteq> set (identifiers s)"
    using buildMapping_keys [of "identifiers s" "[]" 0] by (simp add: assms)
  have "isIdentifier orig \<and> kindRun True orig \<and> isIdentifier new \<and> kindRun True new
           \<and> orig \<in> set (identifiers s) \<and> isVarName new" if "(orig, new) \<in> set m" for orig new
  proof -
    from that keys have o: "orig \<in> set (identifiers s)" by force
    then have "orig \<in> set (runs s)" "isIdentifier orig" by (simp_all add: identifiers_def)
    moreover from this have "kindRun True orig" by (rule isIdentifier_word)
    moreover from mapInv_values [OF inv that] obtain i where "new = varName i" by blast
    ultimately show ?thesis
      using o varName_identifier varName_word varName_isVarName by simp
  qed
  then show ?thesis by blast
qed

lemma normalizeVariableNames_msub:
  assumes fresh: "\<forall>t \<in> set (identifiers s). \<not> isVarName t"
    and m: "m = buildMapping (identifiers s) [] 0"
  shows "normalizeVariableNames s = msub (lookup m) s"
proof -
  note props = mapping_properties [OF m]
  have 1: "\<forall>(orig, new) \<in> set m. kindRun True orig \<and> kindRun True new"
    using props by blast
  have 2: "\<forall>new \<in> snd ` set m. new \<notin> fst ` set m"
  proof (intro ballI notI)
    fix new assume "new \<in> snd ` set m" "new \<in> fst ` set m"
    then obtain a b where "(a, new) \<in> set m" "(new, b) \<in> set m" by force
    with props have "isVarName new" "new \<in> set (identifiers s)" by blast+
    with fresh show False by blast
  qed
  show ?thesis
    using sequential_is_simultaneous [OF 1 2] by (simp add: normalizeVariableNames_def Let_def m)
qed

lemma normalizeVariableNames_fixed:
  assumes m: "m = buildMapping (identifiers s) [] 0"
  shows "normalizeVariableNames (msub (lookup m) s) = msub (lookup m) s"
proof -
  note props = mapping_properties [OF m]
  have ids: "identifiers (msub (lookup m) s) = map (lookup m) (identifiers s)"
    using props by (intro identifiers_msub) blast
  have "buildMapping (map (lookup m) (identifiers s)) (idMapping 0) 0 = idMapping (length m)"
    unfolding m by (rule buildMapping_image) (simp add: mapInv_def)
  then have "buildMapping (identifiers (msub (lookup m) s)) [] 0 = idMapping (length m)"
    by (simp add: ids idMapping_def)
  then show ?thesis
    by (simp add: normalizeVariableNames_def Let_def replace_idMapping)
qed

subsection \<open>Texts without triple-quote delimiters\<close>

lemma findTriple_None: "findTriple q s = None \<longleftrightarrow> \<not> sublist [q, q, q] s"
proof (induction q s rule: findTriple.induct)
  case (1 q a b c rest)
  then show ?case by (auto simp: sublist_Cons_right)
qed (auto dest: sublist_length_le)

lemma removeTriple_free: "findTriple q s = None \<Longrightarrow> removeTriple q s = s"
proof (induction q s rule: removeTriple.induct)
  case (1 q a b c rest)
  from 1(4) have no: "\<not> (a = q \<and> b = q \<and> c = q)" and rest: "findTriple q (b # c # rest) = None"
    by (auto split: if_splits)
  have "removeTriple q (a # b # c # rest) = a # removeTriple q (b # c # rest)"
    by (simp only: removeTriple.simps no if_False)
  with 1(3) [OF no rest] show ?case by simp
qed simp_all

lemma free_sublist: "findTriple q s = None \<Longrightarrow> sublist r s \<Longrightarrow> findTriple q r = None"
  unfolding findTriple_None using sublist_order.order_trans by blast

lemma free_append:
  assumes "findTriple q a = None" "findTriple q b = None"
    and "a = [] \<or> b = [] \<or> last a \<noteq> q \<or> hd b \<noteq> q"
  shows "findTriple q (a @ b) = None"
proof (rule ccontr)
  assume "findTriple q (a @ b) \<noteq> None"
  then have "sublist [q, q, q] (a @ b)" by (simp add: findTriple_None)
  with assms(1,2) obtain xs1 xs2 where x: "[q, q, q] = xs1 @ xs2" "suffix xs1 a" "prefix xs2 b"
    unfolding findTriple_None sublist_append by blast
  have "xs1 \<noteq> []"
  proof
    assume "xs1 = []"
    with x have "prefix [q, q, q] b" by simp
    with assms(2) show False unfolding findTriple_None by blast
  qed
  moreover have "xs2 \<noteq> []"
  proof
    assume "xs2 = []"
    with x have "suffix [q, q, q] a" by simp
    with assms(1) show False unfolding findTriple_None by blast
  qed
  moreover have allq: "set (xs1 @ xs2) \<subseteq> {q}" using x(1) by (metis empty_set list.simps(15) insert_absorb2 subset_refl)
  ultimately have "last xs1 = q" "hd xs2 = q"
    using last_in_set [of xs1] hd_in_set [of xs2] by (simp, blast)+
  moreover have "a \<noteq> [] \<and> last a = last xs1"
    using x(2) \<open>xs1 \<noteq> []\<close> by (auto simp: suffix_def)
  moreover have "b \<noteq> [] \<and> hd b = hd xs2"
    using x(3) \<open>xs2 \<noteq> []\<close> by (auto simp: prefix_def)
  ultimately show False using assms(3) by simp
qed

lemma free_no_q: "q \<notin> set r \<Longrightarrow> findTriple q r = None"
proof -
  assume "q \<notin> set r"
  then have "\<not> sublist [q, q, q] r"
    by (auto simp: sublist_def)
  then show ?thesis by (simp add: findTriple_None)
qed

lemma free_concat_runs:
  assumes "altRuns k rs" and "\<forall>r \<in> set rs. kindRun False r \<longrightarrow> findTriple q r = None"
    and gap: "\<not> isWordChar q"
  shows "findTriple q (concat rs) = None"
  using assms(1,2)
proof (induction rs arbitrary: k)
  case Nil
  then show ?case by simp
next
  case (Cons r rs)
  then have kr: "kindRun k r" and alt: "altRuns (\<not> k) rs" by simp_all
  have rest: "findTriple q (concat rs) = None"
    using Cons.IH [OF alt] Cons.prems(2) by simp
  show ?case
  proof (cases k)
    case True
    with kr gap have "q \<notin> set r" by (auto simp: kindRun_def list_all_iff)
    moreover from this kr have "last r \<noteq> q" by (metis kindRun_def last_in_set)
    ultimately show ?thesis
      using free_append [OF free_no_q rest, of r] by simp
  next
    case False
    with kr Cons.prems(2) have r: "findTriple q r = None" by simp
    have "concat rs = [] \<or> hd (concat rs) \<noteq> q"
    proof (cases rs)
      case Nil
      then show ?thesis by simp
    next
      case (Cons r' rs')
      with alt False have "kindRun True r'" by simp
      with gap have "r' \<noteq> [] \<and> hd r' \<noteq> q" by (cases r') (auto simp: kindRun_def)
      with Cons show ?thesis by auto
    qed
    with free_append [OF r rest] show ?thesis by auto
  qed
qed

lemma run_sublist: "r \<in> set (runs s) \<Longrightarrow> sublist r s"
proof -
  assume "r \<in> set (runs s)"
  then obtain xs ys where "runs s = xs @ r # ys" by (meson split_list)
  then have "concat (runs s) = concat xs @ r @ concat ys" by simp
  then show ?thesis by (simp add: concat_runs sublist_def) metis
qed

lemma free_msub:
  assumes p: "preserving \<rho>" and gap: "\<not> isWordChar q" and free: "findTriple q s = None"
  shows "findTriple q (msub \<rho> s) = None"
proof (cases "s = []")
  case True
  then show ?thesis by (simp add: msub_def)
next
  case False
  have alt: "altRuns (isWordChar (hd s)) (map \<rho> (runs s))"
    using altRuns_map [OF p altRuns_runs [OF False]] .
  have "findTriple q r' = None" if "r' \<in> set (map \<rho> (runs s))" "kindRun False r'" for r'
  proof -
    from that obtain r where r: "r \<in> set (runs s)" "r' = \<rho> r" by auto
    from runs_kind [OF r(1)] have "\<rho> r = r"
    proof
      assume "kindRun True r"
      with p have "kindRun True (\<rho> r)" by (simp add: preserving_def)
      with that(2) r(2) show ?thesis by (cases "\<rho> r") (auto simp: kindRun_def)
    next
      assume "kindRun False r"
      with p show ?thesis by (simp add: preserving_def)
    qed
    with r free_sublist [OF free run_sublist [OF r(1)]] show ?thesis by simp
  qed
  then show ?thesis
    unfolding msub_def using free_concat_runs [OF alt _ gap] by blast
qed

lemma stripLineComments_True_hd:
  "stripLineComments True s = [] \<or> isLineTerminator (hd (stripLineComments True s))"
  by (induction s) auto

lemma stripLineComments_q_prefix:
  assumes "q \<noteq> CHR ''#''" "\<not> isLineTerminator q"
  shows "takeWhile (\<lambda>c. c = q) (stripLineComments False s) = takeWhile (\<lambda>c. c = q) s"
proof (induction s)
  case Nil
  then show ?case by simp
next
  case (Cons c cs)
  show ?case
  proof (cases "c = q")
    case True
    with assms Cons show ?thesis by simp
  next
    case False
    show ?thesis
    proof (cases "c = CHR ''#'' \<and> \<not> isLineTerminator c")
      case True
      with stripLineComments_True_hd [of cs] assms(2) False show ?thesis
        by (cases "stripLineComments True cs") auto
    next
      case notHash: False
      with False show ?thesis by auto
    qed
  qed
qed

lemma free_Cons:
  "findTriple q (c # s) = None \<longleftrightarrow>
     findTriple q s = None \<and> \<not> (c = q \<and> 2 \<le> length (takeWhile (\<lambda>c. c = q) s))"
proof (cases s)
  case Nil
  then show ?thesis by simp
next
  case (Cons b s')
  then show ?thesis by (cases s') (auto split: if_splits)
qed

lemma free_stripLineComments:
  assumes q: "q \<noteq> CHR ''#''" "\<not> isLineTerminator q"
  shows "findTriple q s = None \<Longrightarrow> findTriple q (stripLineComments b s) = None"
proof (induction s arbitrary: b)
  case Nil
  then show ?case by simp
next
  case (Cons c cs)
  from Cons.prems have tail: "findTriple q cs = None"
    and head: "\<not> (c = q \<and> 2 \<le> length (takeWhile (\<lambda>c. c = q) cs))"
    by (simp_all add: free_Cons)
  show ?case
  proof (cases "isLineTerminator c")
    case True
    with q have "c \<noteq> q" by auto
    with True Cons.IH [OF tail, of False] show ?thesis by (simp add: free_Cons)
  next
    case False
    show ?thesis
    proof (cases "b \<or> c = CHR ''#''")
      case True
      with False Cons.IH [OF tail, of True] show ?thesis by simp
    next
      case keep: False
      then have "stripLineComments b (c # cs) = c # stripLineComments False cs"
        using False by simp
      with head Cons.IH [OF tail, of False] stripLineComments_q_prefix [OF q, of cs]
      show ?thesis by (simp add: free_Cons)
    qed
  qed
qed

lemma split_sublist: "l \<in> set (split n s) \<Longrightarrow> sublist l s"
proof -
  have "\<forall>l \<in> set (split n s). sublist l s \<and> (l = hd (split n s) \<longrightarrow> prefix l s)"
  proof (induction s)
    case Nil
    then show ?case by simp
  next
    case (Cons x xs)
    show ?case
    proof (cases "split n xs")
      case Nil
      then show ?thesis by (simp add: split_nonempty)
    next
      case (Cons a as)
      with Cons.IH have a: "prefix a xs" and as: "\<forall>l \<in> set as. sublist l xs" by simp_all
      from a have "prefix (x # a) (x # xs)" by simp
      moreover have "sublist l (x # xs)" if "sublist l xs" for l
        using that by (simp add: sublist_Cons_right)
      ultimately show ?thesis using Cons a as by (auto simp: sublist_Cons_right)
    qed
  qed
  then show "l \<in> set (split n s) \<Longrightarrow> sublist l s" by blast
qed

lemma trim_sublist: "sublist (trim l) l"
  using trim_decompose [of l] by (metis sublist_appendI)

lemma free_join:
  assumes "n \<noteq> q" and "\<forall>l \<in> set ls. findTriple q l = None"
  shows "findTriple q (join [n] ls) = None"
  using assms(2)
proof (induction "[n]" ls rule: join.induct)
  case 1
  then show ?case by simp
next
  case (2 x)
  then show ?case by simp
next
  case (3 x y ys)
  then have "findTriple q (join [n] (y # ys)) = None" by simp
  then have "findTriple q (n # join [n] (y # ys)) = None"
    using assms(1) by (simp add: free_Cons)
  moreover have "findTriple q x = None" using 3 by simp
  ultimately have "findTriple q (x @ n # join [n] (y # ys)) = None"
    using assms(1) by (intro free_append) simp_all
  then show ?case by simp
qed

lemma free_normalizeWhitespace:
  assumes "q \<noteq> CHR 0x0A" and free: "findTriple q s = None"
  shows "findTriple q (normalizeWhitespace s) = None"
proof -
  have "findTriple q l = None" if "l \<in> set (trimmedLines s)" for l
  proof -
    from that obtain l0 where "l0 \<in> set (split (CHR 0x0A) s)" "l = trim l0"
      by (auto simp: trimmedLines_def)
    then have "sublist l s"
      using split_sublist trim_sublist sublist_order.order_trans by blast
    with free show ?thesis by (rule free_sublist)
  qed
  then show ?thesis
    unfolding normalizeWhitespace_trimmedLines using assms(1) by (intro free_join) auto
qed

subsection \<open>Idempotence of the normalization\<close>

lemma removeComments_free:
  assumes "findTriple (CHR 0x22) c = None" "findTriple (CHR 0x27) c = None"
  shows "removeComments c = stripLineComments False c"
proof -
  have "findTriple (CHR 0x22) (stripLineComments False c) = None"
    "findTriple (CHR 0x27) (stripLineComments False c) = None"
    using assms by (simp_all add: free_stripLineComments isLineTerminator_def)
  then show ?thesis
    by (simp add: removeComments_def removeTriple_free)
qed

lemma removeComments_fixed:
  assumes "CHR ''#'' \<notin> set s" "findTriple (CHR 0x22) s = None" "findTriple (CHR 0x27) s = None"
  shows "removeComments s = s"
  using assms by (simp add: removeComments_free stripLineComments_no_hash)

lemma free_removeComments:
  assumes "findTriple (CHR 0x22) c = None" "findTriple (CHR 0x27) c = None"
  shows "findTriple (CHR 0x22) (removeComments c) = None \<and> findTriple (CHR 0x27) (removeComments c) = None"
  using assms by (simp add: removeComments_free free_stripLineComments isLineTerminator_def)

lemma normalized_text:
  assumes "findTriple (CHR 0x22) (removeComments c) = None"
    and "findTriple (CHR 0x27) (removeComments c) = None"
  defines "d \<equiv> normalizeWhitespace (removeComments c)"
  shows "CHR ''#'' \<notin> set d \<and> findTriple (CHR 0x22) d = None \<and> findTriple (CHR 0x27) d = None"
proof -
  have "CHR ''#'' \<notin> set d"
    using set_normalizeWhitespace [of "CHR ''#''" "removeComments c"] set_removeComments [of c]
    unfolding d_def by auto
  moreover have "findTriple (CHR 0x22) d = None" "findTriple (CHR 0x27) d = None"
    unfolding d_def using assms(1,2) by (simp_all add: free_normalizeWhitespace)
  ultimately show ?thesis by simp
qed

text \<open>
  C9, as the code has it: normalizing normalized code changes nothing whenever comment
  stripping leaves no triple-quote delimiter (three double quotes or three single quotes
  in a row) in the input and, if identifiers are anonymized, the input has after comment
  stripping and whitespace normalization no identifier of the form \<open>var\<close> followed by
  digits. Inputs with blocks in triple quotes are among these: the blocks are removed,
  and what matters is that no delimiter is left over.
\<close>

theorem normalizeCode_idempotent:
  assumes quotes: "findTriple (CHR 0x22) (removeComments c) = None"
      "findTriple (CHR 0x27) (removeComments c) = None"
    and fresh: "v \<longrightarrow> (\<forall>t \<in> set (identifiers (normalizeWhitespace (removeComments c))). \<not> isVarName t)"
  shows "normalizeCode (normalizeCode c v) v = normalizeCode c v"
proof -
  define d where "d = normalizeWhitespace (removeComments c)"
  have chars: "CHR ''#'' \<notin> set d" "findTriple (CHR 0x22) d = None" "findTriple (CHR 0x27) d = None"
    using normalized_text [OF quotes] by (simp_all add: d_def)
  show ?thesis
  proof (cases v)
    case False
    have "removeComments d = d" using chars by (rule removeComments_fixed)
    moreover have "normalizeWhitespace d = d" unfolding d_def by (rule normalizeWhitespace_idem)
    ultimately show ?thesis using False by (simp add: normalizeCode_def d_def [symmetric])
  next
    case True
    with fresh have fresh': "\<forall>t \<in> set (identifiers d). \<not> isVarName t"
      by (simp add: d_def)
    define m where "m = buildMapping (identifiers d) [] 0"
    define e where "e = msub (lookup m) d"
    have p: "preserving (lookup m)"
      using mapping_properties [OF m_def] by (intro preserving_lookup) blast
    have e: "normalizeVariableNames d = e"
      unfolding e_def using fresh' m_def by (intro normalizeVariableNames_msub) simp_all
    have "CHR ''#'' \<notin> set e"
      using chars(1) msub_gap_chars [OF p hash_gap, of d] unfolding e_def by blast
    moreover have "findTriple (CHR 0x22) e = None" "findTriple (CHR 0x27) e = None"
      unfolding e_def using chars quote_gap by (simp_all add: free_msub [OF p])
    ultimately have 1: "removeComments e = e" by (rule removeComments_fixed)
    have 2: "normalizeWhitespace e = e"
      unfolding e_def d_def by (rule normalizeWhitespace_msub [OF p])
    have 3: "normalizeVariableNames e = e"
      unfolding e_def using m_def by (rule normalizeVariableNames_fixed)
    have "normalizeCode c v = e"
      using True e by (simp add: normalizeCode_def d_def [symmetric])
    moreover have "normalizeCode e v = e"
      using True 1 2 3 by (simp add: normalizeCode_def)
    ultimately show ?thesis by simp
  qed
qed

lemma exampleD_block:
  "findTriple (CHR 0x22) exampleD \<noteq> None
   \<and> removeComments exampleD = ''\<newline>name = '' @ [CHR 0x22] @ ''bob'' @ [CHR 0x22] @ ''   \<newline>\<newline>  print(name)''"
  by code_simp

lemma exampleD_free:
  "findTriple (CHR 0x22) (removeComments exampleD) = None
   \<and> findTriple (CHR 0x27) (removeComments exampleD) = None"
  by code_simp

lemma exampleD_fresh:
  "\<forall>t \<in> set (identifiers (normalizeWhitespace (removeComments exampleD))). \<not> isVarName t"
  by code_simp

lemma exampleD_normalized:
  "normalizeCode exampleD True = ''var0 = '' @ [CHR 0x22] @ ''var1'' @ [CHR 0x22] @ ''\<newline>print(var0)''"
  by code_simp

theorem normalizeCode_idempotent_witness:
  "normalizeCode (normalizeCode exampleD True) True
     = ''var0 = '' @ [CHR 0x22] @ ''var1'' @ [CHR 0x22] @ ''\<newline>print(var0)''
   \<and> normalizeCode (normalizeCode exampleD False) False = normalizeCode exampleD False"
  using normalizeCode_idempotent [of exampleD True] normalizeCode_idempotent [of exampleD False]
    exampleD_free exampleD_fresh
  by (simp add: exampleD_normalized)

text \<open>
  Two identifiers that already carry generated names, in the other order: the second
  replacement hits the result of the first. And a text where the removal of a block in
  triple single quotes leaves a block in triple double quotes behind.
\<close>

theorem normalizeCode_idempotent_counterexample:
  "normalizeCode ''var1 var0'' True = ''var1 var1''
   \<and> normalizeCode (normalizeCode ''var1 var0'' True) True = ''var0 var0''
   \<and> normalizeCode exampleQuotes False
       = [CHR 0x22, CHR 0x22, CHR 0x22, CHR '' '', CHR ''b'', CHR '' '', CHR 0x22, CHR 0x22, CHR 0x22]
   \<and> normalizeCode (normalizeCode exampleQuotes False) False = []"
  by code_simp

end
